theory Spec2Isabelle
  imports Complex_Main "HOL-Library.Word"
begin

unbundle bit_operations_syntax

section \<open>Errors\<close>

text \<open>
  The C++ sources signal a missing key with \<open>std::out_of_range\<close> (thrown by
  \<open>std::unordered_map::at\<close> and by the sorted-array stores). Reading through an
  iterator or index that is out of range has no defined behaviour in C++; the model
  makes every such read an explicit \<open>UndefinedBehaviour\<close> result instead of an
  unspecified HOL value.
\<close>

datatype error = OutOfRange | UndefinedBehaviour

section \<open>Sorted-array stores (indexed\_array.cpp)\<close>

subsection \<open>The standard binary searches\<close>

text \<open>
  \<open>std::lower_bound(first, last, k)\<close> on a random-access range: the usual
  halving loop over the pair (first, len). Iterators are offsets into the vector.
\<close>

function lower_bound_loop :: "'k::linorder list \<Rightarrow> 'k \<Rightarrow> nat \<Rightarrow> nat \<Rightarrow> nat" where
  "lower_bound_loop ks k first len =
     (if 0 < len then
        (let half = len div 2; middle = first + half in
         if ks ! middle < k
         then lower_bound_loop ks k (middle + 1) (len - half - 1)
         else lower_bound_loop ks k first half)
      else first)"
  by pat_completeness auto
termination
  by (relation "measure (\<lambda>(ks, k, first, len). len)") auto

declare lower_bound_loop.simps [simp del]

definition lower_bound :: "'k::linorder list \<Rightarrow> 'k \<Rightarrow> nat" where
  "lower_bound ks k = lower_bound_loop ks k 0 (length ks)"

text \<open>
  \<open>std::binary_search\<close>: \<open>i = lower_bound(first, last, k); return i != last && !(k < *i)\<close>.
\<close>

definition binary_search :: "'k::linorder list \<Rightarrow> 'k \<Rightarrow> bool" where
  "binary_search ks k =
     (let i = lower_bound ks k in i \<noteq> length ks \<and> \<not> (k < ks ! i))"

subsection \<open>KeyValArrays\<close>

text \<open>
  The two private vectors of the class. (The field names carry a prefix because
  \<open>values\<close> is a reserved word of the theory language.)
\<close>

record ('k, 'v) KeyValArrays =
  kv_keys :: "'k list"
  kv_values :: "'v list"

definition KeyValArrays_init :: "('k, 'v) KeyValArrays" where
  "KeyValArrays_init = \<lparr>kv_keys = [], kv_values = []\<rparr>"

text \<open>
  In \<open>at\<close>, \<open>values[idx]\<close> is read without a range check; the model makes a read
  outside \<open>values\<close> explicit. In \<open>count\<close>, the \<open>bool\<close> returned by
  \<open>binary_search\<close> converts to the \<open>size_t\<close> 0 or 1.
\<close>

definition KeyValArrays_at :: "('k::linorder, 'v) KeyValArrays \<Rightarrow> 'k \<Rightarrow> error + 'v" where
  "KeyValArrays_at s k =
     (let keyIt = lower_bound (kv_keys s) k in
      if keyIt = length (kv_keys s) \<or> kv_keys s ! keyIt \<noteq> k then Inl OutOfRange
      else if keyIt < length (kv_values s) then Inr (kv_values s ! keyIt)
      else Inl UndefinedBehaviour)"

definition KeyValArrays_count :: "('k::linorder, 'v) KeyValArrays \<Rightarrow> 'k \<Rightarrow> nat" where
  "KeyValArrays_count s k = (if binary_search (kv_keys s) k then 1 else 0)"

text \<open>
  A mutating member returns the exception it threw, if any, together with the
  object's state afterwards. \<open>insert_back\<close> throws before it touches a vector.
\<close>

definition KeyValArrays_insert_back ::
  "('k::linorder, 'v) KeyValArrays \<Rightarrow> 'k \<Rightarrow> 'v \<Rightarrow> error option \<times> ('k, 'v) KeyValArrays" where
  "KeyValArrays_insert_back s k v =
     (if 0 < length (kv_keys s) \<and> k \<le> last (kv_keys s) then (Some OutOfRange, s)
      else (None, s\<lparr>kv_keys := kv_keys s @ [k], kv_values := kv_values s @ [v]\<rparr>))"

definition KeyValArrays_clear :: "('k, 'v) KeyValArrays \<Rightarrow> ('k, 'v) KeyValArrays" where
  "KeyValArrays_clear s = KeyValArrays_init"

text \<open>The states the class can be in: strictly increasing keys, one value per key.\<close>

definition KeyValArrays_inv :: "('k::linorder, 'v) KeyValArrays \<Rightarrow> bool" where
  "KeyValArrays_inv s \<longleftrightarrow>
     sorted_wrt (<) (kv_keys s) \<and> length (kv_values s) = length (kv_keys s)"

subsection \<open>IndexedKeyValArrays\<close>

record ('k, 'v) IndexedKeyValArrays =
  ikv_keys :: "'k list"
  ikv_indexes :: "nat list"
  ikv_values :: "'v list"

text \<open>The constructor initialises \<open>indexes\<close> with the single offset 0.\<close>

definition IndexedKeyValArrays_init :: "('k, 'v) IndexedKeyValArrays" where
  "IndexedKeyValArrays_init = \<lparr>ikv_keys = [], ikv_indexes = [0], ikv_values = []\<rparr>"

text \<open>
  \<open>at\<close> returns a pair of iterators into \<open>values\<close>; they are modelled by their
  offsets from \<open>values.cbegin()\<close>.
\<close>

definition IndexedKeyValArrays_at ::
  "('k::linorder, 'v) IndexedKeyValArrays \<Rightarrow> 'k \<Rightarrow> error + (nat \<times> nat)" where
  "IndexedKeyValArrays_at s k =
     (let keyIt = lower_bound (ikv_keys s) k in
      if keyIt = length (ikv_keys s) \<or> ikv_keys s ! keyIt \<noteq> k then Inl OutOfRange
      else (let rank = keyIt in
            if rank + 1 < length (ikv_indexes s)
            then Inr (ikv_indexes s ! rank, ikv_indexes s ! (rank + 1))
            else Inl UndefinedBehaviour))"

text \<open>The elements a caller reads between the two iterators.\<close>

definition range_between :: "'v list \<Rightarrow> nat \<times> nat \<Rightarrow> 'v list" where
  "range_between vs r = take (snd r - fst r) (drop (fst r) vs)"

definition IndexedKeyValArrays_count :: "('k::linorder, 'v) IndexedKeyValArrays \<Rightarrow> 'k \<Rightarrow> nat" where
  "IndexedKeyValArrays_count s k = (if binary_search (ikv_keys s) k then 1 else 0)"

definition IndexedKeyValArrays_insert_back ::
  "('k::linorder, 'v) IndexedKeyValArrays \<Rightarrow> 'k \<Rightarrow> 'v list
     \<Rightarrow> error option \<times> ('k, 'v) IndexedKeyValArrays" where
  "IndexedKeyValArrays_insert_back s k vs =
     (if 0 < length (ikv_keys s) \<and> k \<le> last (ikv_keys s) then (Some OutOfRange, s)
      else (None, s\<lparr>ikv_keys := ikv_keys s @ [k],
                     ikv_values := ikv_values s @ vs,
                     ikv_indexes := ikv_indexes s @ [length (ikv_values s @ vs)]\<rparr>))"

definition IndexedKeyValArrays_clear ::
  "('k, 'v) IndexedKeyValArrays \<Rightarrow> ('k, 'v) IndexedKeyValArrays" where
  "IndexedKeyValArrays_clear s = IndexedKeyValArrays_init"

definition IndexedKeyValArrays_inv :: "('k::linorder, 'v) IndexedKeyValArrays \<Rightarrow> bool" where
  "IndexedKeyValArrays_inv s \<longleftrightarrow>
     ikv_indexes s \<noteq> [] \<and> hd (ikv_indexes s) = 0 \<and>
     last (ikv_indexes s) = length (ikv_values s) \<and>
     length (ikv_indexes s) = length (ikv_keys s) + 1 \<and>
     sorted (ikv_indexes s) \<and> sorted_wrt (<) (ikv_keys s)"

section \<open>The OSM store (osm\_store.cpp)\<close>

subsection \<open>Identifiers, coordinates and geometries\<close>

text \<open>
  \<open>typedef uint64_t NodeID\<close> (the build without \<open>COMPACT_NODES\<close>) and
  \<open>typedef uint32_t WayID\<close>, from tilemaker.cpp.
\<close>

type_synonym NodeID = "64 word"
type_synonym WayID = "32 word"
type_synonym NodeVec = "NodeID list"
type_synonym WayVec = "WayID list"

text \<open>
  Modelled from the spec: the struct \<open>LatpLon\<close> is declared in coordinates.cpp, which is
  not among the sources. The spec describes it as a pair of fixed-point scaled integers
  (1e7 units); the store only reads its two fields \<open>latp\<close> and \<open>lon\<close>.
\<close>

record LatpLon =
  latp :: int
  lon :: int

text \<open>
  \<open>Point\<close> is \<open>point_xy<double>\<close>, as (x, y). The doubles are modelled by real
  numbers and \<open>geom::equals\<close> on points by equality: the points that \<open>fillPoints\<close>
  creates are integers divided by 1e7, on which the library's comparison and equality of
  the integers agree. A ring and a linestring are vectors of points, a polygon has an
  outer ring and a vector of inner rings, a multipolygon is a vector of polygons.
\<close>

type_synonym Point = "real \<times> real"
type_synonym Ring = "Point list"

record Polygon =
  outer :: Ring
  inners :: "Ring list"

type_synonym MultiPolygon = "Polygon list"

definition geom_equals :: "Point \<Rightarrow> Point \<Rightarrow> bool" where
  "geom_equals p q \<longleftrightarrow> p = q"

text \<open>
  The three pseudo way IDs: \<open>static_cast<WayID>(-1)\<close>, the largest value, and the two
  below it.
\<close>

definition PSEUDO_WAY_OUTER_MARK :: WayID where
  "PSEUDO_WAY_OUTER_MARK = - 1"

definition PSEUDO_WAY_INNER_MARK :: WayID where
  "PSEUDO_WAY_INNER_MARK = - 1 - 1"

definition PSEUDO_WAY_REVERSE_MARK :: WayID where
  "PSEUDO_WAY_REVERSE_MARK = - 1 - 2"

subsection \<open>NodeStore, WayStore, RelationStore\<close>

text \<open>
  Each store wraps one \<open>std::unordered_map\<close>. \<open>at\<close> throws \<open>std::out_of_range\<close>
  on a missing key, \<open>count\<close> is 0 or 1, and \<open>emplace\<close> leaves the map alone when
  the key is already there.
\<close>

definition unordered_map_at :: "('k \<rightharpoonup> 'v) \<Rightarrow> 'k \<Rightarrow> error + 'v" where
  "unordered_map_at m k = (case m k of None \<Rightarrow> Inl OutOfRange | Some v \<Rightarrow> Inr v)"

definition unordered_map_count :: "('k \<rightharpoonup> 'v) \<Rightarrow> 'k \<Rightarrow> nat" where
  "unordered_map_count m k = (case m k of None \<Rightarrow> 0 | Some v \<Rightarrow> 1)"

definition unordered_map_emplace :: "('k \<rightharpoonup> 'v) \<Rightarrow> 'k \<Rightarrow> 'v \<Rightarrow> ('k \<rightharpoonup> 'v)" where
  "unordered_map_emplace m k v = (case m k of None \<Rightarrow> m(k \<mapsto> v) | Some w \<Rightarrow> m)"

record NodeStore =
  mLatpLons :: "NodeID \<rightharpoonup> LatpLon"

definition NodeStore_at :: "NodeStore \<Rightarrow> NodeID \<Rightarrow> error + LatpLon" where
  "NodeStore_at s i = unordered_map_at (mLatpLons s) i"

definition NodeStore_count :: "NodeStore \<Rightarrow> NodeID \<Rightarrow> nat" where
  "NodeStore_count s i = unordered_map_count (mLatpLons s) i"

definition NodeStore_insert_back :: "NodeStore \<Rightarrow> NodeID \<Rightarrow> LatpLon \<Rightarrow> NodeStore" where
  "NodeStore_insert_back s i coord = s\<lparr>mLatpLons := unordered_map_emplace (mLatpLons s) i coord\<rparr>"

definition NodeStore_clear :: "NodeStore \<Rightarrow> NodeStore" where
  "NodeStore_clear s = s\<lparr>mLatpLons := Map.empty\<rparr>"

record WayStore =
  mNodeLists :: "WayID \<rightharpoonup> NodeVec"

text \<open>\<open>at\<close> returns the begin and end iterators of the stored vector: the node list.\<close>

definition WayStore_at :: "WayStore \<Rightarrow> WayID \<Rightarrow> error + NodeVec" where
  "WayStore_at s i = unordered_map_at (mNodeLists s) i"

definition WayStore_count :: "WayStore \<Rightarrow> WayID \<Rightarrow> nat" where
  "WayStore_count s i = unordered_map_count (mNodeLists s) i"

text \<open>
  \<open>WayStore::insert_back\<close> declares its first parameter as \<open>int i\<close>; \<open>emplace\<close>
  converts it to the key type \<open>WayID\<close>. A caller holding a \<open>WayID\<close> passes it through
  the conversion to \<open>int\<close> (\<open>sint\<close>).
\<close>

definition WayStore_insert_back :: "WayStore \<Rightarrow> int \<Rightarrow> NodeVec \<Rightarrow> WayStore" where
  "WayStore_insert_back s i nodeVec =
     s\<lparr>mNodeLists := unordered_map_emplace (mNodeLists s) (word_of_int i) nodeVec\<rparr>"

definition WayStore_clear :: "WayStore \<Rightarrow> WayStore" where
  "WayStore_clear s = s\<lparr>mNodeLists := Map.empty\<rparr>"

record RelationStore =
  mWayLists :: "WayID \<rightharpoonup> WayVec"

definition RelationStore_at :: "RelationStore \<Rightarrow> WayID \<Rightarrow> error + WayVec" where
  "RelationStore_at s i = unordered_map_at (mWayLists s) i"

definition RelationStore_count :: "RelationStore \<Rightarrow> WayID \<Rightarrow> nat" where
  "RelationStore_count s i = unordered_map_count (mWayLists s) i"

definition RelationStore_insert_back :: "RelationStore \<Rightarrow> WayID \<Rightarrow> WayVec \<Rightarrow> RelationStore" where
  "RelationStore_insert_back s i wayVec =
     s\<lparr>mWayLists := unordered_map_emplace (mWayLists s) i wayVec\<rparr>"

definition RelationStore_clear :: "RelationStore \<Rightarrow> RelationStore" where
  "RelationStore_clear s = s\<lparr>mWayLists := Map.empty\<rparr>"

record OSMStore =
  nodes :: NodeStore
  ways :: WayStore
  relations :: RelationStore

subsection \<open>fillPoints\<close>

text \<open>
  The loop over the node list: look the node up (which may throw), translate it, push it
  unless it equals \<open>lastP\<close>, and remember it as \<open>lastP\<close> either way. The loop returns
  the sink and \<open>nodeCnt\<close>.
\<close>

definition make_Point :: "LatpLon \<Rightarrow> Point" where
  "make_Point ll = (real_of_int (lon ll) / 10000000, real_of_int (latp ll) / 10000000)"

fun fillPoints_loop ::
  "OSMStore \<Rightarrow> NodeVec \<Rightarrow> Point list \<Rightarrow> Point \<Rightarrow> nat \<Rightarrow> error + (Point list \<times> nat)" where
  "fillPoints_loop st [] points lastP nodeCnt = Inr (points, nodeCnt)"
| "fillPoints_loop st (n # rest) points lastP nodeCnt =
     (case NodeStore_at (nodes st) n of
        Inl e \<Rightarrow> Inl e
      | Inr ll \<Rightarrow>
          (let p = make_Point ll in
           if \<not> geom_equals p lastP
           then fillPoints_loop st rest (points @ [p]) p (nodeCnt + 1)
           else fillPoints_loop st rest points p nodeCnt))"

text \<open>
  \<open>iter_swap\<close> on two positions of the vector, and the loop
  \<open>while (frontIt < backIt) iter_swap(frontIt++, backIt--)\<close>, with the iterators as
  offsets from \<open>begin\<close>.
\<close>

definition iter_swap :: "'a list \<Rightarrow> nat \<Rightarrow> nat \<Rightarrow> 'a list" where
  "iter_swap xs i j = xs[i := xs ! j, j := xs ! i]"

function reverse_loop :: "'a list \<Rightarrow> int \<Rightarrow> int \<Rightarrow> 'a list" where
  "reverse_loop xs frontIt backIt =
     (if frontIt < backIt
      then reverse_loop (iter_swap xs (nat frontIt) (nat backIt)) (frontIt + 1) (backIt - 1)
      else xs)"
  by pat_completeness auto
termination
  by (relation "measure (\<lambda>(xs, frontIt, backIt). nat (backIt - frontIt))") auto

declare reverse_loop.simps [simp del]

definition dummy :: Point where
  "dummy = (123456789, 123456789)"

text \<open>
  \<open>fillPoints\<close> itself. After the push loop it sets \<open>frontIt = end - nodeCnt\<close> and
  \<open>backIt = end - 1\<close>. When the vector is still empty (an empty sink and nothing
  pushed), \<open>end - 1\<close> is not an iterator of the vector; with \<open>reverse\<close> the loop
  compares it with \<open>frontIt\<close> and swaps through it, which is undefined. Without
  \<open>reverse\<close> the two iterators are not used.
\<close>

definition fillPoints :: "OSMStore \<Rightarrow> Point list \<Rightarrow> NodeVec \<Rightarrow> bool \<Rightarrow> error + Point list" where
  "fillPoints st points nodeList reverse =
     (let lastP = (if points \<noteq> [] then last points else dummy) in
      case fillPoints_loop st nodeList points lastP 0 of
        Inl e \<Rightarrow> Inl e
      | Inr (points', nodeCnt) \<Rightarrow>
          (let frontIt = int (length points') - int nodeCnt;
               backIt = int (length points') - 1
           in if reverse then
                (if points' = [] then Inl UndefinedBehaviour
                 else Inr (reverse_loop points' frontIt backIt))
              else Inr points'))"

subsection \<open>wayListMultiPolygon\<close>

text \<open>
  The geometry library is outside the sources; the operations the store calls are
  parameters of the model, collected in one record.
\<close>

record GeomLib =
  correct_ring :: "Ring \<Rightarrow> Ring"
  correct_multipolygon :: "MultiPolygon \<Rightarrow> MultiPolygon"
  is_valid_ring :: "Ring \<Rightarrow> bool"
  is_valid_multipolygon :: "MultiPolygon \<Rightarrow> bool"
  geom_within :: "Ring \<Rightarrow> Ring \<Rightarrow> bool"

text \<open>
  The inner \<open>for\<close> loop, from the position \<open>it\<close> (the rest of the way list) to the next
  \<open>OUTER_MARK\<close> or \<open>INNER_MARK\<close> or the end. After a \<open>REVERSE_MARK\<close> the iterator is
  advanced and dereferenced without a test; at the end of the list that read is
  undefined.
\<close>

fun ring_ways_loop :: "OSMStore \<Rightarrow> WayVec \<Rightarrow> Ring \<Rightarrow> error + (Ring \<times> WayVec)" where
  "ring_ways_loop st [] ring = Inr (ring, [])"
| "ring_ways_loop st (w # rest) ring =
     (if w = PSEUDO_WAY_OUTER_MARK \<or> w = PSEUDO_WAY_INNER_MARK then Inr (ring, w # rest)
      else if w = PSEUDO_WAY_REVERSE_MARK then
        (case rest of
           [] \<Rightarrow> Inl UndefinedBehaviour
         | w' # rest' \<Rightarrow>
             (case WayStore_at (ways st) w' of
                Inl e \<Rightarrow> Inl e
              | Inr nodeList \<Rightarrow>
                  (case fillPoints st ring nodeList True of
                     Inl e \<Rightarrow> Inl e
                   | Inr ring' \<Rightarrow> ring_ways_loop st rest' ring')))
      else
        (case WayStore_at (ways st) w of
           Inl e \<Rightarrow> Inl e
         | Inr nodeList \<Rightarrow>
             (case fillPoints st ring nodeList False of
                Inl e \<Rightarrow> Inl e
              | Inr ring' \<Rightarrow> ring_ways_loop st rest ring')))"

text \<open>The inner loop only moves the iterator forward.\<close>

lemma ring_ways_loop_length:
  "ring_ways_loop st it ring = Inr (ring', it') \<Longrightarrow> length it' \<le> length it"
proof (induction st it ring arbitrary: ring' it' rule: ring_ways_loop.induct)
  case (1 st ring)
  then show ?case by simp
next
  case (2 st w rest ring)
  show ?case
  proof (cases "w = PSEUDO_WAY_OUTER_MARK \<or> w = PSEUDO_WAY_INNER_MARK")
    case True
    then show ?thesis using "2.prems" by auto
  next
    case nm: False
    show ?thesis
    proof (cases "w = PSEUDO_WAY_REVERSE_MARK")
      case True
      then show ?thesis
        using "2.prems" nm "2.IH"(1)
        by (auto split: list.splits sum.splits) fastforce
    next
      case False
      then show ?thesis
        using "2.prems" nm "2.IH"(2)
        by (auto split: list.splits sum.splits) fastforce
    qed
  qed
qed

text \<open>
  The \<open>do ... while\<close> loop, on the iterator \<open>it\<close>, the flag \<open>isOuter\<close> and the
  multipolygon \<open>mp\<close>. In \<open>isOuter = isOuter || *it++ == PSEUDO_WAY_OUTER_MARK\<close> the
  right operand is evaluated only when \<open>isOuter\<close> is false: the first iteration does not
  advance the iterator, every later one reads the mark it stopped at and steps over it.
  \<open>mp.back()\<close> on an empty multipolygon would be undefined. The loop is entered with a
  non-empty list and repeats while the iterator is not at the end.
\<close>

function wayListMultiPolygon_loop ::
  "OSMStore \<Rightarrow> WayVec \<Rightarrow> bool \<Rightarrow> MultiPolygon \<Rightarrow> error + MultiPolygon" where
  "wayListMultiPolygon_loop st it isOuter mp =
     (case (if isOuter then Inr (True, it)
            else (case it of
                    [] \<Rightarrow> Inl UndefinedBehaviour
                  | w # rest \<Rightarrow> Inr (w = PSEUDO_WAY_OUTER_MARK, rest))) of
        Inl e \<Rightarrow> Inl e
      | Inr (isOuter', it') \<Rightarrow>
          (case ring_ways_loop st it' [] of
             Inl e \<Rightarrow> Inl e
           | Inr (ring, it'') \<Rightarrow>
               (case (if isOuter' then Inr (mp @ [\<lparr>outer = ring, inners = []\<rparr>])
                      else if mp = [] then Inl UndefinedBehaviour
                      else Inr (butlast mp @ [(last mp)\<lparr>inners := inners (last mp) @ [ring]\<rparr>])) of
                  Inl e \<Rightarrow> Inl e
                | Inr mp' \<Rightarrow>
                    (if it'' \<noteq> [] then wayListMultiPolygon_loop st it'' False mp'
                     else Inr mp'))))"
  by pat_completeness auto
termination
proof (relation "measure (\<lambda>(st, it, isOuter, mp). 2 * length it + (if isOuter then 1 else 0))")
  show "wf (measure (\<lambda>(st, it, isOuter, mp). 2 * length it + (if isOuter then 1 else 0)))"
    by simp
next
  fix st :: OSMStore and it :: WayVec and isOuter :: bool and mp :: MultiPolygon
    and x2 x y ring it'' x2b
  fix isOuter' :: bool and it' :: WayVec
  assume a: "(if isOuter then Inr (True, it)
            else (case it of
                    [] \<Rightarrow> Inl UndefinedBehaviour
                  | w # rest \<Rightarrow> Inr (w = PSEUDO_WAY_OUTER_MARK, rest))) = Inr x2"
    "(isOuter', it') = x2"
    "ring_ways_loop st it' [] = Inr y" "(ring, it'') = y"
  have "length it'' \<le> length it'"
    using a(3,4) ring_ways_loop_length [of st it' "[]" ring it''] by simp
  moreover have "if isOuter then it' = it else length it' < length it"
    using a(1,2) by (auto split: if_splits list.splits)
  ultimately show "((st, it'', False, x2b), st, it, isOuter, mp)
       \<in> measure (\<lambda>(st, it, isOuter, mp). 2 * length it + (if isOuter then 1 else 0))"
    by (auto split: if_splits)
qed

declare wayListMultiPolygon_loop.simps [simp del]

text \<open>
  The function itself, on the way list, and its overload that looks a relation up.
  \<open>geom::correct\<close> runs only when the list is not empty.
\<close>

definition wayListMultiPolygon :: "GeomLib \<Rightarrow> OSMStore \<Rightarrow> WayVec \<Rightarrow> error + MultiPolygon" where
  "wayListMultiPolygon g st wayList =
     (if wayList \<noteq> [] then
        (case wayListMultiPolygon_loop st wayList True [] of
           Inl e \<Rightarrow> Inl e
         | Inr mp \<Rightarrow> Inr (correct_multipolygon g mp))
      else Inr [])"

definition wayListMultiPolygon_rel :: "GeomLib \<Rightarrow> OSMStore \<Rightarrow> WayID \<Rightarrow> error + MultiPolygon" where
  "wayListMultiPolygon_rel g st relId =
     (case RelationStore_at (relations st) relId of
        Inl e \<Rightarrow> Inl e
      | Inr wayList \<Rightarrow> wayListMultiPolygon g st wayList)"

subsection \<open>correctMultiPolygonRelation\<close>

text \<open>A \<open>for\<close> loop whose body may throw: the exception ends the loop.\<close>

fun for_each :: "('i \<Rightarrow> 's \<Rightarrow> error + 's) \<Rightarrow> 'i list \<Rightarrow> 's \<Rightarrow> error + 's" where
  "for_each body [] s = Inr s"
| "for_each body (i # is) s =
     (case body i s of Inl e \<Rightarrow> Inl e | Inr s' \<Rightarrow> for_each body is s')"

text \<open>
  Remember the begin and end coordinates of each way: the body of the first loop over
  \<open>wayVec\<close>, on the vectors \<open>matched\<close> and \<open>endCoordsVec\<close>.
\<close>

definition endCoords_body ::
  "OSMStore \<Rightarrow> WayVec \<Rightarrow> nat \<Rightarrow> bool list \<times> (LatpLon \<times> LatpLon) list
     \<Rightarrow> error + (bool list \<times> (LatpLon \<times> LatpLon) list)" where
  "endCoords_body st wayVec i s =
     (case s of (matched, endCoordsVec) \<Rightarrow>
        if WayStore_count (ways st) (wayVec ! i) = 0 then Inr (matched[i := True], endCoordsVec)
        else
          (case WayStore_at (ways st) (wayVec ! i) of
             Inl e \<Rightarrow> Inl e
           | Inr nodeList \<Rightarrow>
               if nodeList = [] then Inr (matched[i := True], endCoordsVec)
               else
                 (case NodeStore_at (nodes st) (hd nodeList) of
                    Inl e \<Rightarrow> Inl e
                  | Inr front \<Rightarrow>
                      (case NodeStore_at (nodes st) (last nodeList) of
                         Inl e \<Rightarrow> Inl e
                       | Inr back \<Rightarrow> Inr (matched, endCoordsVec[i := (front, back)])))))"

text \<open>
  The two nested \<open>for\<close> loops inside the \<open>do\<close> body: over every way \<open>i\<close> that is not
  matched and both of its ends, keeping the nearest end seen so far in
  (\<open>minSqd\<close>, \<open>nextIdx\<close>, \<open>reverse\<close>). \<open>sqDist\<close> is defined outside the sources and is
  a parameter.
\<close>

definition nearest_try ::
  "(LatpLon \<Rightarrow> LatpLon \<Rightarrow> int) \<Rightarrow> (LatpLon \<times> LatpLon) list \<Rightarrow> LatpLon \<Rightarrow> nat \<Rightarrow> bool
     \<Rightarrow> int \<times> nat \<times> bool \<Rightarrow> int \<times> nat \<times> bool" where
  "nearest_try sqDist endCoordsVec currentCoord i isFirst s =
     (case s of (minSqd, nextIdx, reverse) \<Rightarrow>
        (let targetCoord = (if isFirst then fst (endCoordsVec ! i) else snd (endCoordsVec ! i));
             sqd = sqDist currentCoord targetCoord
         in if sqd < minSqd then (sqd, i, \<not> isFirst) else (minSqd, nextIdx, reverse)))"

definition nearest_scan ::
  "(LatpLon \<Rightarrow> LatpLon \<Rightarrow> int) \<Rightarrow> bool list \<Rightarrow> (LatpLon \<times> LatpLon) list \<Rightarrow> LatpLon \<Rightarrow> nat
     \<Rightarrow> int \<times> nat \<times> bool \<Rightarrow> int \<times> nat \<times> bool" where
  "nearest_scan sqDist matched endCoordsVec currentCoord n s =
     fold (\<lambda>i s. if matched ! i then s
                  else fold (nearest_try sqDist endCoordsVec currentCoord i) [True, False] s)
       [0..<n] s"

text \<open>The variables the \<open>do ... while\<close> loop changes.\<close>

record RingWalk =
  matched :: "bool list"
  nextIdx :: nat
  reverse :: bool
  currentWayVec :: WayVec

definition ring_walk_body ::
  "(LatpLon \<Rightarrow> LatpLon \<Rightarrow> int) \<Rightarrow> WayVec \<Rightarrow> (LatpLon \<times> LatpLon) list \<Rightarrow> nat \<Rightarrow> LatpLon
     \<Rightarrow> RingWalk \<Rightarrow> RingWalk" where
  "ring_walk_body sqDist wayVec endCoordsVec startIdx startCoord w =
     (let matched' = (matched w)[nextIdx w := True];
          currentWayVec' =
            (if reverse w then currentWayVec w @ [PSEUDO_WAY_REVERSE_MARK] else currentWayVec w)
              @ [wayVec ! nextIdx w];
          currentCoord =
            (if reverse w then fst (endCoordsVec ! nextIdx w) else snd (endCoordsVec ! nextIdx w));
          minSqd = sqDist currentCoord startCoord
      in case nearest_scan sqDist matched' endCoordsVec currentCoord (length wayVec)
                (minSqd, startIdx, reverse w) of
           (minSqd', nextIdx', reverse') \<Rightarrow>
             \<lparr>matched = matched', nextIdx = nextIdx', reverse = reverse',
              currentWayVec = currentWayVec'\<rparr>)"

text \<open>
  The three vectors have the size of \<open>wayVec\<close> and \<open>nextIdx\<close> indexes them; an index
  outside them would be an undefined access.
\<close>

definition walk_in_range :: "WayVec \<Rightarrow> (LatpLon \<times> LatpLon) list \<Rightarrow> RingWalk \<Rightarrow> bool" where
  "walk_in_range wayVec endCoordsVec w \<longleftrightarrow>
     length (matched w) = length wayVec \<and> length endCoordsVec = length wayVec \<and>
     nextIdx w < length wayVec"

definition unmatched :: "bool list \<Rightarrow> nat" where
  "unmatched ms = length (filter Not ms)"

lemma nearest_try_idx:
  "nearest_try sqDist ecv cc i isFirst (m, nx, r) = (m', nx', r') \<Longrightarrow> nx' = nx \<or> nx' = i"
  by (auto simp: nearest_try_def Let_def split: if_splits)

lemma nearest_scan_idx:
  "nearest_scan sqDist ms ecv cc n (m, nx, r) = (m', nx', r') \<Longrightarrow>
     nx' = nx \<or> (nx' < n \<and> \<not> ms ! nx')"
proof (induction n arbitrary: m' nx' r')
  case 0
  then show ?case by (simp add: nearest_scan_def)
next
  case (Suc n)
  obtain m1 nx1 r1 where mid: "nearest_scan sqDist ms ecv cc n (m, nx, r) = (m1, nx1, r1)"
    by (cases "nearest_scan sqDist ms ecv cc n (m, nx, r)") auto
  have ih: "nx1 = nx \<or> (nx1 < n \<and> \<not> ms ! nx1)" using Suc.IH [OF mid] .
  show ?case
  proof (cases "ms ! n")
    case True
    then show ?thesis using Suc.prems mid ih by (auto simp: nearest_scan_def)
  next
    case False
    obtain m2 nx2 r2 where t1: "nearest_try sqDist ecv cc n True (m1, nx1, r1) = (m2, nx2, r2)"
      by (cases "nearest_try sqDist ecv cc n True (m1, nx1, r1)") auto
    have t2: "nearest_try sqDist ecv cc n False (m2, nx2, r2) = (m', nx', r')"
      using Suc.prems mid False t1 by (simp add: nearest_scan_def)
    show ?thesis
      using nearest_try_idx [OF t1] nearest_try_idx [OF t2] ih False by auto
  qed
qed

lemma unmatched_mark:
  "i < length ms \<Longrightarrow> \<not> ms ! i \<Longrightarrow> Suc (unmatched (ms[i := True])) = unmatched ms"
proof (induction ms arbitrary: i)
  case Nil
  then show ?case by simp
next
  case (Cons a ms)
  then show ?case by (cases i) (auto simp: unmatched_def)
qed

lemma unmatched_mark_again: "ms ! i \<Longrightarrow> ms[i := True] = ms"
  by (metis list_update_id)

lemma ring_walk_body_matched:
  "matched (ring_walk_body sqDist wayVec ecv startIdx sc w) = (matched w)[nextIdx w := True]"
  by (simp add: ring_walk_body_def Let_def split: prod.splits)

lemma ring_walk_body_next:
  assumes "nextIdx (ring_walk_body sqDist wayVec ecv startIdx sc w) \<noteq> startIdx"
  shows "nextIdx (ring_walk_body sqDist wayVec ecv startIdx sc w) < length wayVec \<and>
         \<not> (matched (ring_walk_body sqDist wayVec ecv startIdx sc w))
              ! nextIdx (ring_walk_body sqDist wayVec ecv startIdx sc w)"
proof -
  let ?ms = "(matched w)[nextIdx w := True]"
  let ?cc = "if reverse w then fst (ecv ! nextIdx w) else snd (ecv ! nextIdx w)"
  obtain m' nx' r' where sc:
    "nearest_scan sqDist ?ms ecv ?cc (length wayVec) (sqDist ?cc sc, startIdx, reverse w) = (m', nx', r')"
    by (cases "nearest_scan sqDist ?ms ecv ?cc (length wayVec) (sqDist ?cc sc, startIdx, reverse w)") auto
  have nx: "nextIdx (ring_walk_body sqDist wayVec ecv startIdx sc w) = nx'"
    using sc by (simp add: ring_walk_body_def Let_def)
  show ?thesis
    using nearest_scan_idx [OF sc] assms unfolding nx ring_walk_body_matched by auto
qed

definition walk_measure :: "RingWalk \<Rightarrow> nat" where
  "walk_measure w = unmatched (matched w) + (if matched w ! nextIdx w then 1 else 0)"

lemma ring_walk_body_decreases:
  assumes "walk_in_range wayVec ecv w"
    and "nextIdx (ring_walk_body sqDist wayVec ecv startIdx sc w) \<noteq> startIdx"
  shows "walk_measure (ring_walk_body sqDist wayVec ecv startIdx sc w) < walk_measure w"
proof -
  let ?w' = "ring_walk_body sqDist wayVec ecv startIdx sc w"
  have nm: "\<not> matched ?w' ! nextIdx ?w'"
    using ring_walk_body_next [OF assms(2)] by simp
  have len: "nextIdx w < length (matched w)"
    using assms(1) by (simp add: walk_in_range_def)
  show ?thesis
  proof (cases "matched w ! nextIdx w")
    case True
    then show ?thesis
      using nm by (simp add: walk_measure_def ring_walk_body_matched unmatched_mark_again)
  next
    case False
    then show ?thesis
      using nm unmatched_mark [OF len False]
      by (simp add: walk_measure_def ring_walk_body_matched)
  qed
qed

function ring_walk ::
  "(LatpLon \<Rightarrow> LatpLon \<Rightarrow> int) \<Rightarrow> WayVec \<Rightarrow> (LatpLon \<times> LatpLon) list \<Rightarrow> nat \<Rightarrow> LatpLon
     \<Rightarrow> RingWalk \<Rightarrow> error + RingWalk" where
  "ring_walk sqDist wayVec endCoordsVec startIdx startCoord w =
     (if \<not> walk_in_range wayVec endCoordsVec w then Inl UndefinedBehaviour
      else
        (let w' = ring_walk_body sqDist wayVec endCoordsVec startIdx startCoord w
         in if nextIdx w' \<noteq> startIdx
            then ring_walk sqDist wayVec endCoordsVec startIdx startCoord w'
            else Inr w'))"
  by pat_completeness auto
termination
  by (relation "measure (\<lambda>(sqDist, wayVec, endCoordsVec, startIdx, startCoord, w). walk_measure w)")
    (auto intro: ring_walk_body_decreases)

declare ring_walk.simps [simp del]



text \<open>
  Create a ring for a loop consisting of ways: the \<open>for\<close> loop over
  \<open>currentWayVec\<close> that calls \<open>fillPoints\<close>.
\<close>

fun ring_points :: "OSMStore \<Rightarrow> WayVec \<Rightarrow> Ring \<Rightarrow> error + Ring" where
  "ring_points st [] currentRing = Inr currentRing"
| "ring_points st (w # rest) currentRing =
     (if w = PSEUDO_WAY_REVERSE_MARK then
        (case rest of
           [] \<Rightarrow> Inl UndefinedBehaviour
         | w' # rest' \<Rightarrow>
             (case WayStore_at (ways st) w' of
                Inl e \<Rightarrow> Inl e
              | Inr nodeList \<Rightarrow>
                  (case fillPoints st currentRing nodeList True of
                     Inl e \<Rightarrow> Inl e
                   | Inr ring' \<Rightarrow> ring_points st rest' ring')))
      else
        (case WayStore_at (ways st) w of
           Inl e \<Rightarrow> Inl e
         | Inr nodeList \<Rightarrow>
             (case fillPoints st currentRing nodeList False of
                Inl e \<Rightarrow> Inl e
              | Inr ring' \<Rightarrow> ring_points st rest ring')))"

text \<open>
  The body of the loop over \<open>startIdx\<close>, on \<open>matched\<close>, \<open>wayVecVec\<close> and
  \<open>ringVec\<close>: skip a way that is used, walk a ring, build its points, correct it, and
  keep it when it is valid.
\<close>

definition construct_ring_body ::
  "GeomLib \<Rightarrow> (LatpLon \<Rightarrow> LatpLon \<Rightarrow> int) \<Rightarrow> OSMStore \<Rightarrow> WayVec \<Rightarrow> (LatpLon \<times> LatpLon) list
     \<Rightarrow> nat \<Rightarrow> bool list \<times> WayVec list \<times> Ring list
     \<Rightarrow> error + (bool list \<times> WayVec list \<times> Ring list)" where
  "construct_ring_body g sqDist st wayVec endCoordsVec startIdx s =
     (case s of (matched0, wayVecVec, ringVec) \<Rightarrow>
        if matched0 ! startIdx then Inr (matched0, wayVecVec, ringVec)
        else
          (case ring_walk sqDist wayVec endCoordsVec startIdx (fst (endCoordsVec ! startIdx))
                  \<lparr>matched = matched0, nextIdx = startIdx, reverse = False, currentWayVec = []\<rparr> of
             Inl e \<Rightarrow> Inl e
           | Inr w \<Rightarrow>
               (case ring_points st (currentWayVec w) [] of
                  Inl e \<Rightarrow> Inl e
                | Inr currentRing \<Rightarrow>
                    (let currentRing' = correct_ring g currentRing in
                     if \<not> is_valid_ring g currentRing' then Inr (matched w, wayVecVec, ringVec)
                     else Inr (matched w, wayVecVec @ [currentWayVec w],
                               ringVec @ [currentRing'])))))"

definition zeroLatpLon :: LatpLon where
  "zeroLatpLon = \<lparr>latp = 0, lon = 0\<rparr>"

text \<open>One pass of the loop over \<open>{true, false}\<close>, for one of the two way vectors.\<close>

definition construct_rings ::
  "GeomLib \<Rightarrow> (LatpLon \<Rightarrow> LatpLon \<Rightarrow> int) \<Rightarrow> OSMStore \<Rightarrow> WayVec
     \<Rightarrow> error + (WayVec list \<times> Ring list)" where
  "construct_rings g sqDist st wayVec =
     (case for_each (endCoords_body st wayVec) [0..<length wayVec]
             (replicate (length wayVec) False,
              replicate (length wayVec) (zeroLatpLon, zeroLatpLon)) of
        Inl e \<Rightarrow> Inl e
      | Inr (matched0, endCoordsVec) \<Rightarrow>
          (case for_each (construct_ring_body g sqDist st wayVec endCoordsVec)
                  [0..<length wayVec] (matched0, [], []) of
             Inl e \<Rightarrow> Inl e
           | Inr (matched1, wayVecVec, ringVec) \<Rightarrow> Inr (wayVecVec, ringVec)))"

text \<open>
  Search the nearest outer ring for an inner ring. \<open>parent\<close> starts as \<open>SIZE_MAX\<close>,
  which no index reaches; it is \<open>None\<close> here.
\<close>

definition find_parent_body :: "GeomLib \<Rightarrow> Ring \<Rightarrow> Ring list \<Rightarrow> nat \<Rightarrow> nat option \<Rightarrow> nat option" where
  "find_parent_body g innerRing outerRingVec j parent =
     (if geom_within g innerRing (outerRingVec ! j) then
        (case parent of
           None \<Rightarrow> Some j
         | Some p \<Rightarrow> if geom_within g (outerRingVec ! j) (outerRingVec ! p) then Some j else Some p)
      else parent)"

definition find_parent :: "GeomLib \<Rightarrow> Ring \<Rightarrow> Ring list \<Rightarrow> nat option" where
  "find_parent g innerRing outerRingVec =
     fold (find_parent_body g innerRing outerRingVec) [0..<length outerRingVec] None"

definition assign_inner_body ::
  "GeomLib \<Rightarrow> Ring list \<Rightarrow> Ring list \<Rightarrow> WayVec list \<Rightarrow> nat \<Rightarrow> WayVec list \<Rightarrow> WayVec list" where
  "assign_inner_body g outerRingVec innerRingVec innerWayVecVec k innerWayVecForOuter =
     (case find_parent g (innerRingVec ! k) outerRingVec of
        None \<Rightarrow> innerWayVecForOuter
      | Some parent \<Rightarrow>
          innerWayVecForOuter[parent :=
            (innerWayVecForOuter ! parent @ [PSEUDO_WAY_INNER_MARK]) @ innerWayVecVec ! k])"

definition assign_inners ::
  "GeomLib \<Rightarrow> WayVec list \<Rightarrow> Ring list \<Rightarrow> Ring list \<Rightarrow> WayVec list \<Rightarrow> WayVec list" where
  "assign_inners g outerWayVecVec outerRingVec innerRingVec innerWayVecVec =
     fold (assign_inner_body g outerRingVec innerRingVec innerWayVecVec)
       [0..<length innerRingVec] (replicate (length outerWayVecVec) [])"

definition flatten_body :: "WayVec list \<Rightarrow> WayVec list \<Rightarrow> nat \<Rightarrow> WayVec \<Rightarrow> WayVec" where
  "flatten_body outerWayVecVec innerWayVecForOuter j result =
     ((if 0 < j then result @ [PSEUDO_WAY_OUTER_MARK] else result)
        @ outerWayVecVec ! j) @ innerWayVecForOuter ! j"

definition flatten_result :: "WayVec list \<Rightarrow> WayVec list \<Rightarrow> WayVec" where
  "flatten_result outerWayVecVec innerWayVecForOuter =
     fold (flatten_body outerWayVecVec innerWayVecForOuter) [0..<length outerWayVecVec] []"

text \<open>
  The whole function. The warnings it writes to \<open>cerr\<close> are not modelled; the final
  validity check only warns, but it builds the multipolygon, which may throw.
\<close>

definition correctMultiPolygonRelation ::
  "GeomLib \<Rightarrow> (LatpLon \<Rightarrow> LatpLon \<Rightarrow> int) \<Rightarrow> OSMStore \<Rightarrow> WayVec \<Rightarrow> WayVec \<Rightarrow> error + WayVec" where
  "correctMultiPolygonRelation g sqDist st outerWayVec innerWayVec =
     (case construct_rings g sqDist st outerWayVec of
        Inl e \<Rightarrow> Inl e
      | Inr (outerWayVecVec, outerRingVec) \<Rightarrow>
          (case construct_rings g sqDist st innerWayVec of
             Inl e \<Rightarrow> Inl e
           | Inr (innerWayVecVec, innerRingVec) \<Rightarrow>
               (let innerWayVecForOuter =
                      assign_inners g outerWayVecVec outerRingVec innerRingVec innerWayVecVec;
                    result = flatten_result outerWayVecVec innerWayVecForOuter
                in case wayListMultiPolygon g st result of
                     Inl e \<Rightarrow> Inl e
                   | Inr mp \<Rightarrow> Inr result)))"

section \<open>Parent tiles (tilemaker.cpp)\<close>

text \<open>
  The body of the loop that assigns each base-zoom tile to a tile at \<open>zoom\<close>. All
  variables are \<open>uint\<close>. \<open>pow(2, baseZoom-zoom)\<close> is a double, the division is a
  division of doubles (exact: the divisor is a power of two) and the conversion back to
  \<open>uint\<close> truncates.
\<close>

definition parent_index :: "32 word \<Rightarrow> 32 word \<Rightarrow> 32 word \<Rightarrow> 32 word" where
  "parent_index index baseZoom zoom =
     (let tilex = (word_of_int \<lfloor>real (unat (drop_bit 16 index)) / 2 ^ unat (baseZoom - zoom)\<rfloor> :: 32 word);
          tiley = (word_of_int \<lfloor>real (unat (index AND 65535)) / 2 ^ unat (baseZoom - zoom)\<rfloor> :: 32 word);
          newIndex = push_bit 16 tilex + tiley
      in newIndex)"

section \<open>Example inputs\<close>

text \<open>
  Nodes on a grid (one grid step is 1e7 fixed-point units) and some ways over them,
  each a closed clockwise square: way 10 is the square A from (0,0) to (8,8), way 11 the
  square C from (20,20) to (24,24), way 12 the square B from (4,4) to (12,12), which
  overlaps A, way 13 the square X from (4,4) to (8,8), where A and B overlap, and way 20
  the small square from (5,5) to (7,7), inside A, B and X. Ways 30 and 31 are the two
  halves of A, both starting at node 1. Way 40 has no nodes.
\<close>

definition at_xy :: "int \<Rightarrow> int \<Rightarrow> LatpLon" where
  "at_xy x y = \<lparr>latp = y * 10000000, lon = x * 10000000\<rparr>"

definition example_store :: OSMStore where
  "example_store =
     \<lparr>nodes = \<lparr>mLatpLons = map_of
         [(1, at_xy 0 0), (2, at_xy 8 0), (3, at_xy 8 8), (4, at_xy 0 8),
          (5, at_xy 4 4), (6, at_xy 12 4), (7, at_xy 12 12), (8, at_xy 4 12),
          (9, at_xy 5 5), (10, at_xy 7 5), (11, at_xy 7 7), (12, at_xy 5 7),
          (13, at_xy 20 20), (14, at_xy 24 20), (15, at_xy 24 24), (16, at_xy 20 24),
          (17, at_xy 8 4), (18, at_xy 4 8)]\<rparr>,
      ways = \<lparr>mNodeLists = map_of
         [(10, [1, 4, 3, 2, 1]), (11, [13, 16, 15, 14, 13]), (12, [5, 8, 7, 6, 5]),
          (13, [5, 18, 3, 17, 5]), (20, [9, 12, 11, 10, 9]), (30, [1, 4, 3]),
          (31, [1, 2, 3]), (40, [])]\<rparr>,
      relations = \<lparr>mWayLists = Map.empty\<rparr>\<rparr>"

lemma make_Point_at_xy [simp]: "make_Point (at_xy x y) = (real_of_int x, real_of_int y)"
  by (simp add: make_Point_def at_xy_def)

lemma example_store_fields [simp]:
  "nodes example_store = \<lparr>mLatpLons = map_of
         [(1, at_xy 0 0), (2, at_xy 8 0), (3, at_xy 8 8), (4, at_xy 0 8),
          (5, at_xy 4 4), (6, at_xy 12 4), (7, at_xy 12 12), (8, at_xy 4 12),
          (9, at_xy 5 5), (10, at_xy 7 5), (11, at_xy 7 7), (12, at_xy 5 7),
          (13, at_xy 20 20), (14, at_xy 24 20), (15, at_xy 24 24), (16, at_xy 20 24),
          (17, at_xy 8 4), (18, at_xy 4 8)]\<rparr>"
  "ways example_store = \<lparr>mNodeLists = map_of
         [(10, [1, 4, 3, 2, 1]), (11, [13, 16, 15, 14, 13]), (12, [5, 8, 7, 6, 5]),
          (13, [5, 18, 3, 17, 5]), (20, [9, 12, 11, 10, 9]), (30, [1, 4, 3]),
          (31, [1, 2, 3]), (40, [])]\<rparr>"
  by (simp_all add: example_store_def)

text \<open>
  A stand-in for the geometry library on closed clockwise axis-parallel rectangles:
  correcting such a ring changes nothing, it is valid, and it is within another one
  exactly when all its corners lie in the other's bounding box.
\<close>

definition box_within :: "Ring \<Rightarrow> Ring \<Rightarrow> bool" where
  "box_within a b \<longleftrightarrow>
     (\<forall>p\<in>set a. (\<exists>q\<in>set b. fst q \<le> fst p) \<and> (\<exists>q\<in>set b. fst p \<le> fst q) \<and>
                  (\<exists>q\<in>set b. snd q \<le> snd p) \<and> (\<exists>q\<in>set b. snd p \<le> snd q))"

definition box_geom :: GeomLib where
  "box_geom =
     \<lparr>correct_ring = (\<lambda>r. r), correct_multipolygon = (\<lambda>mp. mp),
      is_valid_ring = (\<lambda>r. True), is_valid_multipolygon = (\<lambda>mp. True),
      geom_within = box_within\<rparr>"

text \<open>
  Modelled from the spec: \<open>sqDist\<close> is defined outside the sources; the spec describes
  it as the squared Euclidean distance over the (latp, lon) fixed-point integers.
\<close>

definition sqDist_spec :: "LatpLon \<Rightarrow> LatpLon \<Rightarrow> int" where
  "sqDist_spec a b = (latp a - latp b) * (latp a - latp b) + (lon a - lon b) * (lon a - lon b)"

text \<open>Rewrite rules that evaluate the store operations on the example.\<close>

lemmas store_eval =
  NodeStore_at_def NodeStore_count_def WayStore_at_def WayStore_count_def
  unordered_map_at_def unordered_map_count_def geom_equals_def dummy_def
  PSEUDO_WAY_OUTER_MARK_def PSEUDO_WAY_INNER_MARK_def PSEUDO_WAY_REVERSE_MARK_def Let_def

lemmas ring_eval = fillPoints_def store_eval reverse_loop.simps iter_swap_def

section \<open>Notions used to state the properties\<close>

text \<open>A vector of points with no zero-length edge: no two neighbours are equal.\<close>

fun no_adjacent_equal :: "Point list \<Rightarrow> bool" where
  "no_adjacent_equal (p # q # ps) \<longleftrightarrow> \<not> geom_equals p q \<and> no_adjacent_equal (q # ps)"
| "no_adjacent_equal ps \<longleftrightarrow> True"

text \<open>
  The state machine of the specification: the rings of an encoded way sequence are
  placed one after the other; a ring that follows \<open>OUTER_MARK\<close> starts a new polygon
  with that ring as its outer, a ring that follows \<open>INNER_MARK\<close> is appended to the
  inner rings of the current (last) polygon.
\<close>

definition new_polygon :: "Ring \<Rightarrow> Polygon" where
  "new_polygon ring = \<lparr>outer = ring, inners = []\<rparr>"

fun place_rings :: "MultiPolygon \<Rightarrow> (WayID \<times> Ring) list \<Rightarrow> MultiPolygon" where
  "place_rings mp [] = mp"
| "place_rings mp ((m, ring) # rs) =
     place_rings
       (if m = PSEUDO_WAY_OUTER_MARK then mp @ [new_polygon ring]
        else butlast mp @ [(last mp)\<lparr>inners := inners (last mp) @ [ring]\<rparr>]) rs"

text \<open>An encoded sequence: the ways of the first ring, then each mark with the ways of its ring.\<close>

definition encode_rings :: "WayVec \<Rightarrow> (WayID \<times> WayVec \<times> Ring) list \<Rightarrow> WayVec" where
  "encode_rings ws0 segs = ws0 @ concat (map (\<lambda>(m, ws, ring). m # ws) segs)"

definition is_ring_mark :: "WayID \<Rightarrow> bool" where
  "is_ring_mark m \<longleftrightarrow> m = PSEUDO_WAY_OUTER_MARK \<or> m = PSEUDO_WAY_INNER_MARK"

text \<open>
  Two notions for the parent search: \<open>geom::within\<close> is transitive on the outer
  rings; and the outer ring \<open>m\<close> is a smallest enclosing candidate of an inner ring, that
  is, it contains the inner ring and is itself contained in every other outer ring that
  also contains the inner ring.
\<close>

definition within_transitive :: "GeomLib \<Rightarrow> Ring list \<Rightarrow> bool" where
  "within_transitive g outerRingVec \<longleftrightarrow>
     (\<forall>i<length outerRingVec. \<forall>j<length outerRingVec. \<forall>k<length outerRingVec.
        geom_within g (outerRingVec ! i) (outerRingVec ! j) \<and>
        geom_within g (outerRingVec ! j) (outerRingVec ! k) \<longrightarrow>
        geom_within g (outerRingVec ! i) (outerRingVec ! k))"

definition smallest_candidate :: "GeomLib \<Rightarrow> Ring \<Rightarrow> Ring list \<Rightarrow> nat \<Rightarrow> bool" where
  "smallest_candidate g innerRing outerRingVec m \<longleftrightarrow>
     m < length outerRingVec \<and> geom_within g innerRing (outerRingVec ! m) \<and>
     (\<forall>j<length outerRingVec.
        j \<noteq> m \<and> geom_within g innerRing (outerRingVec ! j) \<longrightarrow>
        geom_within g (outerRingVec ! m) (outerRingVec ! j))"

text \<open>The inner rings for which the parent search finds a parent.\<close>

definition parented :: "GeomLib \<Rightarrow> Ring list \<Rightarrow> Ring list \<Rightarrow> nat set" where
  "parented g outerRingVec innerRingVec =
     {k. k < length innerRingVec \<and> find_parent g (innerRingVec ! k) outerRingVec \<noteq> None}"

section \<open>Properties of the sorted-array stores\<close>

subsection \<open>Binary search on a sorted vector\<close>

lemma lower_bound_loop_spec:
  assumes "sorted ks" "first + len \<le> length ks"
  shows "first \<le> lower_bound_loop ks k first len \<and>
         lower_bound_loop ks k first len \<le> first + len \<and>
         (\<forall>i. first \<le> i \<and> i < lower_bound_loop ks k first len \<longrightarrow> ks ! i < k) \<and>
         (\<forall>i. lower_bound_loop ks k first len \<le> i \<and> i < first + len \<longrightarrow> \<not> ks ! i < k)"
  using assms
proof (induction ks k first len rule: lower_bound_loop.induct)
  case (1 ks k first len)
  show ?case
  proof (cases "0 < len")
    case False
    then have "lower_bound_loop ks k first len = first"
      by (subst lower_bound_loop.simps) simp
    then show ?thesis using False by auto
  next
    case True
    define half where "half = len div 2"
    define middle where "middle = first + half"
    have hl: "half < len" using True by (simp add: half_def)
    have ml: "middle < length ks" using hl "1.prems"(2) by (simp add: middle_def)
    show ?thesis
    proof (cases "ks ! middle < k")
      case lt: True
      have eq: "lower_bound_loop ks k first len = lower_bound_loop ks k (middle + 1) (len - half - 1)"
        using True lt by (subst lower_bound_loop.simps) (simp add: half_def middle_def Let_def)
      have bnd: "middle + 1 + (len - half - 1) \<le> length ks"
        using hl "1.prems"(2) by (simp add: middle_def)
      note IH = "1.IH"(1) [OF True half_def middle_def lt "1.prems"(1) bnd]
      have low: "ks ! i < k" if "i \<le> middle" for i
      proof -
        have "ks ! i \<le> ks ! middle"
          using "1.prems"(1) that ml by (simp add: sorted_nth_mono)
        then show ?thesis using lt by simp
      qed
      show ?thesis
        unfolding eq using IH hl low
        by (auto simp: middle_def) (metis le_less_linear less_Suc_eq_le middle_def)
    next
      case ge: False
      have eq: "lower_bound_loop ks k first len = lower_bound_loop ks k first half"
        using True ge by (subst lower_bound_loop.simps) (simp add: half_def middle_def Let_def)
      have bnd: "first + half \<le> length ks"
        using hl "1.prems"(2) by simp
      note IH = "1.IH"(2) [OF True half_def middle_def ge "1.prems"(1) bnd]
      have high: "\<not> ks ! i < k" if "middle \<le> i" "i < length ks" for i
      proof -
        have "ks ! middle \<le> ks ! i"
          using "1.prems"(1) that by (simp add: sorted_nth_mono)
        then show ?thesis using ge by simp
      qed
      show ?thesis
        unfolding eq using IH hl high "1.prems"(2)
        by (auto simp: middle_def) (metis le_less_linear less_le_trans middle_def)
    qed
  qed
qed

lemma lower_bound_filter:
  assumes "sorted ks"
  shows "lower_bound ks k = length (filter (\<lambda>x. x < k) ks)"
proof -
  define r where "r = lower_bound ks k"
  have spec: "r \<le> length ks" "\<And>i. i < r \<Longrightarrow> ks ! i < k"
    "\<And>i. r \<le> i \<Longrightarrow> i < length ks \<Longrightarrow> \<not> ks ! i < k"
    using lower_bound_loop_spec [OF assms, of 0 "length ks" k]
    by (simp_all add: r_def lower_bound_def)
  have a: "filter (\<lambda>x. x < k) (take r ks) = take r ks"
    using spec(1,2) by (auto simp: filter_id_conv in_set_conv_nth)
  have b: "filter (\<lambda>x. x < k) (drop r ks) = []"
    using spec(1,3) by (auto simp: filter_empty_conv in_set_conv_nth)
  have "filter (\<lambda>x. x < k) ks = filter (\<lambda>x. x < k) (take r ks @ drop r ks)"
    by simp
  also have "\<dots> = take r ks"
    unfolding filter_append a b by simp
  finally show ?thesis using spec(1) by (simp add: r_def)
qed

lemma sorted_le_last:
  assumes "sorted ks" "x \<in> set ks"
  shows "x \<le> last ks"
proof -
  obtain i where i: "i < length ks" "ks ! i = x"
    using assms(2) by (auto simp: in_set_conv_nth)
  have "ks \<noteq> []" using assms(2) by auto
  then have l: "last ks = ks ! (length ks - 1)" by (simp add: last_conv_nth)
  have "ks ! i \<le> ks ! (length ks - 1)"
    using assms(1) i(1) by (intro sorted_nth_mono) auto
  then show ?thesis using i(2) l by simp
qed

lemma lower_bound_append_greatest:
  assumes "sorted ks" "\<forall>x\<in>set ks. x < k"
  shows "lower_bound (ks @ [k]) k = length ks"
proof -
  have s: "sorted (ks @ [k])"
    using assms by (auto simp: sorted_append less_imp_le)
  show ?thesis
    using assms(2) by (simp add: lower_bound_filter [OF s] filter_id_conv)
qed

lemma lower_bound_found:
  assumes "sorted ks"
  shows "(lower_bound ks k \<noteq> length ks \<and> ks ! lower_bound ks k = k) \<longleftrightarrow> k \<in> set ks"
proof -
  define r where "r = lower_bound ks k"
  have spec: "r \<le> length ks" "\<And>i. i < r \<Longrightarrow> ks ! i < k"
    "\<And>i. r \<le> i \<Longrightarrow> i < length ks \<Longrightarrow> \<not> ks ! i < k"
    using lower_bound_loop_spec [OF assms, of 0 "length ks" k]
    by (simp_all add: r_def lower_bound_def)
  have "k \<in> set ks \<Longrightarrow> r \<noteq> length ks \<and> ks ! r = k"
  proof -
    assume "k \<in> set ks"
    then obtain i where i: "i < length ks" "ks ! i = k" by (auto simp: in_set_conv_nth)
    have ri: "r \<le> i" using spec(2) [of i] i by (cases "i < r") auto
    then have "ks ! r \<le> k" using sorted_nth_mono [OF assms ri i(1)] i(2) by simp
    moreover have "\<not> ks ! r < k" using spec(3) [of r] ri i by simp
    ultimately show ?thesis using i ri by auto
  qed
  moreover have "r \<noteq> length ks \<and> ks ! r = k \<Longrightarrow> k \<in> set ks"
    using spec(1) nth_mem [of r ks] by auto
  ultimately show ?thesis unfolding r_def by blast
qed

lemma binary_search_iff:
  assumes "sorted ks"
  shows "binary_search ks k \<longleftrightarrow> k \<in> set ks"
proof -
  define r where "r = lower_bound ks k"
  have spec: "r \<le> length ks" "\<And>i. r \<le> i \<Longrightarrow> i < length ks \<Longrightarrow> \<not> ks ! i < k"
    using lower_bound_loop_spec [OF assms, of 0 "length ks" k]
    by (simp_all add: r_def lower_bound_def)
  have "r \<noteq> length ks \<Longrightarrow> (\<not> k < ks ! r) = (ks ! r = k)"
    using spec(1) spec(2) [of r] by auto
  then show ?thesis
    using lower_bound_found [OF assms, of k]
    by (auto simp: binary_search_def Let_def r_def)
qed

subsection \<open>The sorted-array stores\<close>

lemma greater_than_last:
  assumes "sorted_wrt (<) ks" "\<not> (0 < length ks \<and> k \<le> last ks)"
  shows "\<forall>x\<in>set ks. x < (k::'k::linorder)"
proof
  fix x assume x: "x \<in> set ks"
  then have "ks \<noteq> []" by auto
  then have "last ks < k" using assms(2) by auto
  moreover have "x \<le> last ks"
    using sorted_le_last [OF strict_sorted_imp_sorted [OF assms(1)] x] .
  ultimately show "x < k" by simp
qed

lemma not_greater_than_last:
  assumes "\<forall>x\<in>set ks. x < (k::'k::linorder)"
  shows "\<not> (0 < length ks \<and> k \<le> last ks)"
proof
  assume a: "0 < length ks \<and> k \<le> last ks"
  then have "last ks \<in> set ks" by simp
  then have "last ks < k" using assms by blast
  then show False using a leD by blast
qed

lemma KeyValArrays_insert_back_appends:
  assumes "KeyValArrays_inv s" "\<forall>x\<in>set (kv_keys s). x < k"
  shows "KeyValArrays_insert_back s k v =
           (None, s\<lparr>kv_keys := kv_keys s @ [k], kv_values := kv_values s @ [v]\<rparr>)"
    and "KeyValArrays_at (s\<lparr>kv_keys := kv_keys s @ [k], kv_values := kv_values s @ [v]\<rparr>) k = Inr v"
    and "KeyValArrays_count (s\<lparr>kv_keys := kv_keys s @ [k], kv_values := kv_values s @ [v]\<rparr>) k = 1"
    and "KeyValArrays_inv (s\<lparr>kv_keys := kv_keys s @ [k], kv_values := kv_values s @ [v]\<rparr>)"
proof -
  have so: "sorted (kv_keys s)" and len: "length (kv_values s) = length (kv_keys s)"
    using assms(1) by (simp_all add: KeyValArrays_inv_def strict_sorted_imp_sorted)
  have lb: "lower_bound (kv_keys s @ [k]) k = length (kv_keys s)"
    using lower_bound_append_greatest [OF so assms(2)] .
  have s': "sorted (kv_keys s @ [k])"
    using so assms(2) by (auto simp: sorted_append less_imp_le)
  show "KeyValArrays_insert_back s k v =
           (None, s\<lparr>kv_keys := kv_keys s @ [k], kv_values := kv_values s @ [v]\<rparr>)"
    using not_greater_than_last [OF assms(2)] by (simp add: KeyValArrays_insert_back_def)
  show "KeyValArrays_at (s\<lparr>kv_keys := kv_keys s @ [k], kv_values := kv_values s @ [v]\<rparr>) k = Inr v"
    by (simp add: KeyValArrays_at_def lb len nth_append)
  show "KeyValArrays_count (s\<lparr>kv_keys := kv_keys s @ [k], kv_values := kv_values s @ [v]\<rparr>) k = 1"
    by (simp add: KeyValArrays_count_def binary_search_iff [OF s'])
  show "KeyValArrays_inv (s\<lparr>kv_keys := kv_keys s @ [k], kv_values := kv_values s @ [v]\<rparr>)"
    using assms by (auto simp: KeyValArrays_inv_def sorted_wrt_append)
qed

lemma KeyValArrays_insert_back_inv:
  assumes "KeyValArrays_inv s"
  shows "KeyValArrays_inv (snd (KeyValArrays_insert_back s k v))"
proof (cases "0 < length (kv_keys s) \<and> k \<le> last (kv_keys s)")
  case True
  then show ?thesis using assms by (simp add: KeyValArrays_insert_back_def)
next
  case False
  have "\<forall>x\<in>set (kv_keys s). x < k"
    using greater_than_last [OF _ False] assms by (simp add: KeyValArrays_inv_def)
  then show ?thesis
    using KeyValArrays_insert_back_appends(1,4) [OF assms, of k v] by simp
qed

lemma IndexedKeyValArrays_insert_back_appends:
  fixes t :: "('k::linorder, 'v) IndexedKeyValArrays" and k :: 'k and vs :: "'v list"
  assumes "IndexedKeyValArrays_inv t" "\<forall>x\<in>set (ikv_keys t). x < k"
  defines "t' \<equiv> t\<lparr>ikv_keys := ikv_keys t @ [k], ikv_values := ikv_values t @ vs,
                    ikv_indexes := ikv_indexes t @ [length (ikv_values t @ vs)]\<rparr>"
  shows "IndexedKeyValArrays_insert_back t k vs = (None, t')"
    and "IndexedKeyValArrays_at t' k =
           Inr (length (ikv_values t), length (ikv_values t) + length vs)"
    and "IndexedKeyValArrays_count t' k = 1"
    and "IndexedKeyValArrays_inv t'"
proof -
  have so: "sorted (ikv_keys t)" and ss: "sorted_wrt (<) (ikv_keys t)"
    and len: "length (ikv_indexes t) = length (ikv_keys t) + 1"
    and la: "last (ikv_indexes t) = length (ikv_values t)"
    and ne: "ikv_indexes t \<noteq> []" and si: "sorted (ikv_indexes t)"
    and hd0: "hd (ikv_indexes t) = 0"
    using assms(1) by (simp_all add: IndexedKeyValArrays_inv_def strict_sorted_imp_sorted)
  have lb: "lower_bound (ikv_keys t @ [k]) k = length (ikv_keys t)"
    using lower_bound_append_greatest [OF so assms(2)] .
  have s': "sorted (ikv_keys t @ [k])"
    using so assms(2) by (auto simp: sorted_append less_imp_le)
  have lastidx: "ikv_indexes t ! length (ikv_keys t) = length (ikv_values t)"
    using la ne len by (simp add: last_conv_nth)
  show "IndexedKeyValArrays_insert_back t k vs = (None, t')"
    using not_greater_than_last [OF assms(2)]
    by (simp add: IndexedKeyValArrays_insert_back_def t'_def)
  show "IndexedKeyValArrays_at t' k =
           Inr (length (ikv_values t), length (ikv_values t) + length vs)"
    using len lastidx by (simp add: IndexedKeyValArrays_at_def t'_def lb nth_append)
  show "IndexedKeyValArrays_count t' k = 1"
    by (simp add: IndexedKeyValArrays_count_def t'_def binary_search_iff [OF s'])
  have "\<forall>x\<in>set (ikv_indexes t). x \<le> length (ikv_values t) + length vs"
    using sorted_le_last [OF si] la by fastforce
  then show "IndexedKeyValArrays_inv t'"
    using assms(2) ss len ne si hd0
    by (auto simp: IndexedKeyValArrays_inv_def t'_def sorted_wrt_append sorted_append)
qed

lemma IndexedKeyValArrays_insert_back_inv:
  assumes "IndexedKeyValArrays_inv t"
  shows "IndexedKeyValArrays_inv (snd (IndexedKeyValArrays_insert_back t k vs))"
proof (cases "0 < length (ikv_keys t) \<and> k \<le> last (ikv_keys t)")
  case True
  then show ?thesis using assms by (simp add: IndexedKeyValArrays_insert_back_def)
next
  case False
  have "\<forall>x\<in>set (ikv_keys t). x < k"
    using greater_than_last [OF _ False] assms by (simp add: IndexedKeyValArrays_inv_def)
  then show ?thesis
    using IndexedKeyValArrays_insert_back_appends(1,4) [OF assms, of k vs] by simp
qed

lemma IndexedKeyValArrays_at_range:
  assumes "IndexedKeyValArrays_inv t" "IndexedKeyValArrays_at t k = Inr (b, e)"
  shows "b \<le> e \<and> e \<le> length (ikv_values t)"
proof -
  define rank where "rank = lower_bound (ikv_keys t) k"
  have r: "rank + 1 < length (ikv_indexes t)" "b = ikv_indexes t ! rank"
    "e = ikv_indexes t ! (rank + 1)"
    using assms(2) by (auto simp: IndexedKeyValArrays_at_def Let_def rank_def split: if_splits)
  have si: "sorted (ikv_indexes t)" and la: "last (ikv_indexes t) = length (ikv_values t)"
    using assms(1) by (simp_all add: IndexedKeyValArrays_inv_def)
  have "b \<le> e" unfolding r(2,3) using si r(1) by (intro sorted_nth_mono) auto
  moreover have "e \<le> last (ikv_indexes t)"
    unfolding r(3) using r(1) by (intro sorted_le_last [OF si] nth_mem)
  ultimately show ?thesis using la by simp
qed

lemma IndexedKeyValArrays_at_stored:
  assumes "IndexedKeyValArrays_inv t" "k \<in> set (ikv_keys t)"
  shows "\<exists>b e. IndexedKeyValArrays_at t k = Inr (b, e)"
proof -
  have so: "sorted (ikv_keys t)" and len: "length (ikv_indexes t) = length (ikv_keys t) + 1"
    using assms(1) by (simp_all add: IndexedKeyValArrays_inv_def strict_sorted_imp_sorted)
  have f: "lower_bound (ikv_keys t) k \<noteq> length (ikv_keys t)"
    "ikv_keys t ! lower_bound (ikv_keys t) k = k"
    using lower_bound_found [OF so, of k] assms(2) by simp_all
  have "lower_bound (ikv_keys t) k \<le> length (ikv_keys t)"
    using lower_bound_loop_spec [OF so, of 0 "length (ikv_keys t)" k]
    by (simp add: lower_bound_def)
  then have "lower_bound (ikv_keys t) k + 1 < length (ikv_indexes t)"
    using f(1) len by simp
  then show ?thesis using f by (simp add: IndexedKeyValArrays_at_def Let_def)
qed

lemma sint_WayID_roundtrip: "(word_of_int (sint (w :: WayID)) :: WayID) = w"
  by simp

lemma unordered_map_emplace_fresh:
  "unordered_map_count m k = 0 \<Longrightarrow>
     unordered_map_count (unordered_map_emplace m k v) k = 1 \<and>
     unordered_map_at (unordered_map_emplace m k v) k = Inr v"
  by (auto simp: unordered_map_count_def unordered_map_emplace_def unordered_map_at_def
      split: option.splits)

lemma unordered_map_emplace_present:
  "unordered_map_count m k = 1 \<Longrightarrow> unordered_map_emplace m k v = m"
  by (auto simp: unordered_map_count_def unordered_map_emplace_def split: option.splits)

lemma KeyValArrays_count_iff:
  "KeyValArrays_inv s \<Longrightarrow> KeyValArrays_count s k = 1 \<longleftrightarrow> k \<in> set (kv_keys s)"
  by (simp add: KeyValArrays_count_def KeyValArrays_inv_def binary_search_iff
      strict_sorted_imp_sorted)

lemma IndexedKeyValArrays_count_iff:
  "IndexedKeyValArrays_inv t \<Longrightarrow> IndexedKeyValArrays_count t k = 1 \<longleftrightarrow> k \<in> set (ikv_keys t)"
  by (simp add: IndexedKeyValArrays_count_def IndexedKeyValArrays_inv_def binary_search_iff
      strict_sorted_imp_sorted)

lemma KeyValArrays_insert_back_rejects:
  "\<not> (\<forall>x\<in>set (kv_keys s). x < k) \<Longrightarrow> KeyValArrays_inv s \<Longrightarrow>
     KeyValArrays_insert_back s k v = (Some OutOfRange, s)"
  using greater_than_last [of "kv_keys s" k]
  by (auto simp: KeyValArrays_insert_back_def KeyValArrays_inv_def)

lemma IndexedKeyValArrays_insert_back_rejects:
  "\<not> (\<forall>x\<in>set (ikv_keys t). x < k) \<Longrightarrow> IndexedKeyValArrays_inv t \<Longrightarrow>
     IndexedKeyValArrays_insert_back t k vs = (Some OutOfRange, t)"
  using greater_than_last [of "ikv_keys t" k]
  by (auto simp: IndexedKeyValArrays_insert_back_def IndexedKeyValArrays_inv_def)

text \<open>
  Claim C9. In a \<open>KeyValArrays\<close> or \<open>IndexedKeyValArrays\<close> reached through its own
  operations, \<open>insert_back\<close> with a key less than or equal to the last key throws
  \<open>out_of_range\<close> and leaves the container as it was; with a key greater than every
  key inserted before it appends the key and the value(s), after which \<open>at(k)\<close> returns
  what was inserted and \<open>count(k)\<close> is 1.
\<close>

theorem insert_back_rejects_or_appends:
  fixes s :: "('k::linorder, 'v) KeyValArrays" and t :: "('k, 'u) IndexedKeyValArrays"
  assumes "KeyValArrays_inv s" and "IndexedKeyValArrays_inv t"
  shows "(kv_keys s \<noteq> [] \<and> k \<le> last (kv_keys s) \<longrightarrow>
            KeyValArrays_insert_back s k v = (Some OutOfRange, s)) \<and>
         (ikv_keys t \<noteq> [] \<and> k \<le> last (ikv_keys t) \<longrightarrow>
            IndexedKeyValArrays_insert_back t k vs = (Some OutOfRange, t)) \<and>
         ((\<forall>x\<in>set (kv_keys s). x < k) \<longrightarrow>
            (\<exists>s'. KeyValArrays_insert_back s k v = (None, s') \<and>
                  kv_keys s' = kv_keys s @ [k] \<and> kv_values s' = kv_values s @ [v] \<and>
                  KeyValArrays_at s' k = Inr v \<and> KeyValArrays_count s' k = 1)) \<and>
         ((\<forall>x\<in>set (ikv_keys t). x < k) \<longrightarrow>
            (\<exists>t' r. IndexedKeyValArrays_insert_back t k vs = (None, t') \<and>
                  ikv_keys t' = ikv_keys t @ [k] \<and> ikv_values t' = ikv_values t @ vs \<and>
                  ikv_indexes t' = ikv_indexes t @ [length (ikv_values t) + length vs] \<and>
                  IndexedKeyValArrays_at t' k = Inr r \<and>
                  range_between (ikv_values t') r = vs \<and>
                  IndexedKeyValArrays_count t' k = 1))"
proof (intro conjI impI)
  assume "kv_keys s \<noteq> [] \<and> k \<le> last (kv_keys s)"
  then show "KeyValArrays_insert_back s k v = (Some OutOfRange, s)"
    by (simp add: KeyValArrays_insert_back_def)
next
  assume "ikv_keys t \<noteq> [] \<and> k \<le> last (ikv_keys t)"
  then show "IndexedKeyValArrays_insert_back t k vs = (Some OutOfRange, t)"
    by (simp add: IndexedKeyValArrays_insert_back_def)
next
  assume gt: "\<forall>x\<in>set (kv_keys s). x < k"
  show "\<exists>s'. KeyValArrays_insert_back s k v = (None, s') \<and>
          kv_keys s' = kv_keys s @ [k] \<and> kv_values s' = kv_values s @ [v] \<and>
          KeyValArrays_at s' k = Inr v \<and> KeyValArrays_count s' k = 1"
    using KeyValArrays_insert_back_appends(1,2,3) [OF assms(1) gt, of v] by simp
next
  assume gt: "\<forall>x\<in>set (ikv_keys t). x < k"
  show "\<exists>t' r. IndexedKeyValArrays_insert_back t k vs = (None, t') \<and>
          ikv_keys t' = ikv_keys t @ [k] \<and> ikv_values t' = ikv_values t @ vs \<and>
          ikv_indexes t' = ikv_indexes t @ [length (ikv_values t) + length vs] \<and>
          IndexedKeyValArrays_at t' k = Inr r \<and>
          range_between (ikv_values t') r = vs \<and>
          IndexedKeyValArrays_count t' k = 1"
    using IndexedKeyValArrays_insert_back_appends(1,2,3) [OF assms(2) gt, of vs]
    by (simp add: range_between_def)
qed

theorem insert_back_rejects_or_appends_witness:
  "KeyValArrays_inv \<lparr>kv_keys = [1, 5 :: nat], kv_values = [10, 50 :: nat]\<rparr> \<and>
   IndexedKeyValArrays_inv \<lparr>ikv_keys = [1, 5 :: nat], ikv_indexes = [0, 2, 3], ikv_values = [7, 8, 9 :: nat]\<rparr> \<and>
   KeyValArrays_insert_back \<lparr>kv_keys = [1, 5 :: nat], kv_values = [10, 50 :: nat]\<rparr> 3 30 =
     (Some OutOfRange, \<lparr>kv_keys = [1, 5], kv_values = [10, 50]\<rparr>) \<and>
   IndexedKeyValArrays_insert_back
       \<lparr>ikv_keys = [1, 5 :: nat], ikv_indexes = [0, 2, 3], ikv_values = [7, 8, 9 :: nat]\<rparr> 5 [4] =
     (Some OutOfRange, \<lparr>ikv_keys = [1, 5], ikv_indexes = [0, 2, 3], ikv_values = [7, 8, 9]\<rparr>) \<and>
   (\<exists>s'. KeyValArrays_insert_back \<lparr>kv_keys = [1, 5 :: nat], kv_values = [10, 50 :: nat]\<rparr> 9 90 = (None, s') \<and>
         kv_keys s' = [1, 5, 9] \<and> kv_values s' = [10, 50, 90] \<and>
         KeyValArrays_at s' 9 = Inr 90 \<and> KeyValArrays_count s' 9 = 1) \<and>
   (\<exists>t' r. IndexedKeyValArrays_insert_back
              \<lparr>ikv_keys = [1, 5 :: nat], ikv_indexes = [0, 2, 3], ikv_values = [7, 8, 9 :: nat]\<rparr> 9 [4, 6] = (None, t') \<and>
         ikv_keys t' = [1, 5, 9] \<and> ikv_values t' = [7, 8, 9, 4, 6] \<and>
         ikv_indexes t' = [0, 2, 3, 5] \<and>
         IndexedKeyValArrays_at t' 9 = Inr r \<and> range_between (ikv_values t') r = [4, 6] \<and>
         IndexedKeyValArrays_count t' 9 = 1)"
  using insert_back_rejects_or_appends
      [of "\<lparr>kv_keys = [1, 5 :: nat], kv_values = [10, 50 :: nat]\<rparr>"
          "\<lparr>ikv_keys = [1, 5 :: nat], ikv_indexes = [0, 2, 3], ikv_values = [7, 8, 9 :: nat]\<rparr>"
          3 30 "[4]"]
    insert_back_rejects_or_appends
      [of "\<lparr>kv_keys = [1, 5 :: nat], kv_values = [10, 50 :: nat]\<rparr>"
          "\<lparr>ikv_keys = [1, 5 :: nat], ikv_indexes = [0, 2, 3], ikv_values = [7, 8, 9 :: nat]\<rparr>"
          5 50 "[4]"]
    insert_back_rejects_or_appends
      [of "\<lparr>kv_keys = [1, 5 :: nat], kv_values = [10, 50 :: nat]\<rparr>"
          "\<lparr>ikv_keys = [1, 5 :: nat], ikv_indexes = [0, 2, 3], ikv_values = [7, 8, 9 :: nat]\<rparr>"
          9 90 "[4, 6]"]
  by (simp add: KeyValArrays_inv_def IndexedKeyValArrays_inv_def eval_nat_numeral)

text \<open>
  Claim C10. The constructor, \<open>insert_back\<close> (whether it appends or throws) and
  \<open>clear\<close> of \<open>IndexedKeyValArrays\<close> establish or keep the structural invariant:
  \<open>indexes\<close> is non-empty, starts with 0, ends with \<open>values.size()\<close>, has one
  element more than \<open>keys\<close> and is non-decreasing, and \<open>keys\<close> is strictly
  increasing. So \<open>at(k)\<close> of a stored key returns a well-formed sub-range of
  \<open>values\<close>: begin \<open>\<le>\<close> end \<open>\<le>\<close> \<open>values.size()\<close>.
\<close>

theorem IndexedKeyValArrays_invariant_kept:
  fixes t :: "('k::linorder, 'v) IndexedKeyValArrays"
  shows "IndexedKeyValArrays_inv (IndexedKeyValArrays_init :: ('k, 'v) IndexedKeyValArrays) \<and>
         (IndexedKeyValArrays_inv t \<longrightarrow>
            IndexedKeyValArrays_inv (snd (IndexedKeyValArrays_insert_back t k vs)) \<and>
            IndexedKeyValArrays_inv (IndexedKeyValArrays_clear t) \<and>
            (\<forall>k'\<in>set (ikv_keys t).
               \<exists>b e. IndexedKeyValArrays_at t k' = Inr (b, e) \<and>
                     b \<le> e \<and> e \<le> length (ikv_values t)))"
proof (intro conjI impI ballI)
  show i: "IndexedKeyValArrays_inv (IndexedKeyValArrays_init :: ('k, 'v) IndexedKeyValArrays)"
    by (simp add: IndexedKeyValArrays_inv_def IndexedKeyValArrays_init_def)
  assume inv: "IndexedKeyValArrays_inv t"
  show "IndexedKeyValArrays_inv (snd (IndexedKeyValArrays_insert_back t k vs))"
    using IndexedKeyValArrays_insert_back_inv [OF inv] .
  show "IndexedKeyValArrays_inv (IndexedKeyValArrays_clear t)"
    using i by (simp add: IndexedKeyValArrays_clear_def)
  fix k' assume "k' \<in> set (ikv_keys t)"
  then obtain b e where be: "IndexedKeyValArrays_at t k' = Inr (b, e)"
    using IndexedKeyValArrays_at_stored [OF inv] by blast
  then show "\<exists>b e. IndexedKeyValArrays_at t k' = Inr (b, e) \<and>
                   b \<le> e \<and> e \<le> length (ikv_values t)"
    using IndexedKeyValArrays_at_range [OF inv be] by blast
qed

theorem IndexedKeyValArrays_invariant_kept_witness:
  "IndexedKeyValArrays_inv (IndexedKeyValArrays_init :: (nat, nat) IndexedKeyValArrays) \<and>
   IndexedKeyValArrays_inv
     \<lparr>ikv_keys = [2, 4 :: nat], ikv_indexes = [0, 2, 3], ikv_values = [7, 8, 9 :: nat]\<rparr> \<and>
   IndexedKeyValArrays_inv (snd (IndexedKeyValArrays_insert_back
     \<lparr>ikv_keys = [2, 4 :: nat], ikv_indexes = [0, 2, 3], ikv_values = [7, 8, 9 :: nat]\<rparr> 6 [1, 1])) \<and>
   IndexedKeyValArrays_inv (IndexedKeyValArrays_clear
     \<lparr>ikv_keys = [2, 4 :: nat], ikv_indexes = [0, 2, 3], ikv_values = [7, 8, 9 :: nat]\<rparr>) \<and>
   (\<exists>b e. IndexedKeyValArrays_at
       \<lparr>ikv_keys = [2, 4 :: nat], ikv_indexes = [0, 2, 3], ikv_values = [7, 8, 9 :: nat]\<rparr> 4 = Inr (b, e) \<and>
       b \<le> e \<and> e \<le> 3)"
proof -
  have h: "IndexedKeyValArrays_inv
     \<lparr>ikv_keys = [2, 4 :: nat], ikv_indexes = [0, 2, 3], ikv_values = [7, 8, 9 :: nat]\<rparr>"
    by (simp add: IndexedKeyValArrays_inv_def)
  show ?thesis
    using h IndexedKeyValArrays_invariant_kept
      [of "\<lparr>ikv_keys = [2, 4 :: nat], ikv_indexes = [0, 2, 3], ikv_values = [7, 8, 9 :: nat]\<rparr>"
          6 "[1, 1]"]
    by (simp add: eval_nat_numeral)
qed

text \<open>
  Claim C1 (as amended). \<open>NodeStore\<close>, \<open>WayStore\<close> and \<open>RelationStore\<close>: after
  \<open>insert_back(k, v)\<close> on a store without \<open>k\<close>, \<open>count(k)\<close> is 1 and \<open>at(k)\<close>
  returns \<open>v\<close>; on a store that has \<open>k\<close> the store is unchanged, so the first value
  stays. \<open>KeyValArrays\<close> and \<open>IndexedKeyValArrays\<close>: \<open>insert_back(k, v)\<close> with \<open>k\<close>
  greater than every stored key gives \<open>count(k) = 1\<close> and \<open>at(k) = v\<close>; with any other
  \<open>k\<close>, stored already or not, it throws \<open>out_of_range\<close> and the store is unchanged.
\<close>

theorem insert_then_lookup:
  fixes s :: "('k::linorder, 'v) KeyValArrays" and t :: "('k, 'u) IndexedKeyValArrays"
  assumes "KeyValArrays_inv s" and "IndexedKeyValArrays_inv t"
  shows "(NodeStore_count ns i = 0 \<longrightarrow>
            NodeStore_count (NodeStore_insert_back ns i c) i = 1 \<and>
            NodeStore_at (NodeStore_insert_back ns i c) i = Inr c) \<and>
         (NodeStore_count ns i = 1 \<longrightarrow> NodeStore_insert_back ns i c = ns) \<and>
         (WayStore_count ws w = 0 \<longrightarrow>
            WayStore_count (WayStore_insert_back ws (sint w) nv) w = 1 \<and>
            WayStore_at (WayStore_insert_back ws (sint w) nv) w = Inr nv) \<and>
         (WayStore_count ws w = 1 \<longrightarrow> WayStore_insert_back ws (sint w) nv = ws) \<and>
         (RelationStore_count rs r = 0 \<longrightarrow>
            RelationStore_count (RelationStore_insert_back rs r wv) r = 1 \<and>
            RelationStore_at (RelationStore_insert_back rs r wv) r = Inr wv) \<and>
         (RelationStore_count rs r = 1 \<longrightarrow> RelationStore_insert_back rs r wv = rs) \<and>
         ((\<forall>x\<in>set (kv_keys s). x < k) \<longrightarrow>
            (\<exists>s'. KeyValArrays_insert_back s k v = (None, s') \<and>
                  KeyValArrays_count s' k = 1 \<and> KeyValArrays_at s' k = Inr v)) \<and>
         (\<not> (\<forall>x\<in>set (kv_keys s). x < k) \<longrightarrow>
            KeyValArrays_insert_back s k v = (Some OutOfRange, s)) \<and>
         (KeyValArrays_count s k = 1 \<longrightarrow>
            KeyValArrays_insert_back s k v = (Some OutOfRange, s)) \<and>
         ((\<forall>x\<in>set (ikv_keys t). x < k) \<longrightarrow>
            (\<exists>t' r. IndexedKeyValArrays_insert_back t k vs = (None, t') \<and>
                  IndexedKeyValArrays_count t' k = 1 \<and>
                  IndexedKeyValArrays_at t' k = Inr r \<and>
                  range_between (ikv_values t') r = vs)) \<and>
         (\<not> (\<forall>x\<in>set (ikv_keys t). x < k) \<longrightarrow>
            IndexedKeyValArrays_insert_back t k vs = (Some OutOfRange, t)) \<and>
         (IndexedKeyValArrays_count t k = 1 \<longrightarrow>
            IndexedKeyValArrays_insert_back t k vs = (Some OutOfRange, t))"
proof -
  have n1: "NodeStore_count ns i = 0 \<longrightarrow>
            NodeStore_count (NodeStore_insert_back ns i c) i = 1 \<and>
            NodeStore_at (NodeStore_insert_back ns i c) i = Inr c"
    using unordered_map_emplace_fresh [of "mLatpLons ns" i c]
    by (simp add: NodeStore_count_def NodeStore_at_def NodeStore_insert_back_def)
  have n2: "NodeStore_count ns i = 1 \<longrightarrow> NodeStore_insert_back ns i c = ns"
    using unordered_map_emplace_present [of "mLatpLons ns" i c]
    by (simp add: NodeStore_count_def NodeStore_insert_back_def)
  have w1: "WayStore_count ws w = 0 \<longrightarrow>
            WayStore_count (WayStore_insert_back ws (sint w) nv) w = 1 \<and>
            WayStore_at (WayStore_insert_back ws (sint w) nv) w = Inr nv"
    using unordered_map_emplace_fresh [of "mNodeLists ws" w nv]
    by (simp add: WayStore_count_def WayStore_at_def WayStore_insert_back_def)
  have w2: "WayStore_count ws w = 1 \<longrightarrow> WayStore_insert_back ws (sint w) nv = ws"
    using unordered_map_emplace_present [of "mNodeLists ws" w nv]
    by (simp add: WayStore_count_def WayStore_insert_back_def)
  have r1: "RelationStore_count rs r = 0 \<longrightarrow>
            RelationStore_count (RelationStore_insert_back rs r wv) r = 1 \<and>
            RelationStore_at (RelationStore_insert_back rs r wv) r = Inr wv"
    using unordered_map_emplace_fresh [of "mWayLists rs" r wv]
    by (simp add: RelationStore_count_def RelationStore_at_def RelationStore_insert_back_def)
  have r2: "RelationStore_count rs r = 1 \<longrightarrow> RelationStore_insert_back rs r wv = rs"
    using unordered_map_emplace_present [of "mWayLists rs" r wv]
    by (simp add: RelationStore_count_def RelationStore_insert_back_def)
  have k1: "(\<forall>x\<in>set (kv_keys s). x < k) \<longrightarrow>
            (\<exists>s'. KeyValArrays_insert_back s k v = (None, s') \<and>
                  KeyValArrays_count s' k = 1 \<and> KeyValArrays_at s' k = Inr v)"
    using KeyValArrays_insert_back_appends(1,2,3) [OF assms(1), of k v] by simp
  have k2: "\<not> (\<forall>x\<in>set (kv_keys s). x < k) \<longrightarrow>
            KeyValArrays_insert_back s k v = (Some OutOfRange, s)"
    using KeyValArrays_insert_back_rejects [OF _ assms(1)] by blast
  have k3: "KeyValArrays_count s k = 1 \<longrightarrow>
            KeyValArrays_insert_back s k v = (Some OutOfRange, s)"
    using k2 KeyValArrays_count_iff [OF assms(1), of k] by auto
  have x1: "(\<forall>x\<in>set (ikv_keys t). x < k) \<longrightarrow>
            (\<exists>t' r. IndexedKeyValArrays_insert_back t k vs = (None, t') \<and>
                  IndexedKeyValArrays_count t' k = 1 \<and>
                  IndexedKeyValArrays_at t' k = Inr r \<and>
                  range_between (ikv_values t') r = vs)"
    using IndexedKeyValArrays_insert_back_appends(1,2,3) [OF assms(2), of k vs]
    by (simp add: range_between_def)
  have x2: "\<not> (\<forall>x\<in>set (ikv_keys t). x < k) \<longrightarrow>
            IndexedKeyValArrays_insert_back t k vs = (Some OutOfRange, t)"
    using IndexedKeyValArrays_insert_back_rejects [OF _ assms(2)] by blast
  have x3: "IndexedKeyValArrays_count t k = 1 \<longrightarrow>
            IndexedKeyValArrays_insert_back t k vs = (Some OutOfRange, t)"
    using x2 IndexedKeyValArrays_count_iff [OF assms(2), of k] by auto
  show ?thesis
    using n1 n2 w1 w2 r1 r2 k1 k2 k3 x1 x2 x3 by blast
qed

theorem insert_then_lookup_witness:
  "NodeStore_count (NodeStore_insert_back \<lparr>mLatpLons = Map.empty\<rparr> 7 \<lparr>latp = 1, lon = 2\<rparr>) 7 = 1 \<and>
   NodeStore_at (NodeStore_insert_back \<lparr>mLatpLons = Map.empty\<rparr> 7 \<lparr>latp = 1, lon = 2\<rparr>) 7
     = Inr \<lparr>latp = 1, lon = 2\<rparr> \<and>
   NodeStore_insert_back \<lparr>mLatpLons = [7 \<mapsto> \<lparr>latp = 1, lon = 2\<rparr>]\<rparr> 7 \<lparr>latp = 3, lon = 4\<rparr>
     = \<lparr>mLatpLons = [7 \<mapsto> \<lparr>latp = 1, lon = 2\<rparr>]\<rparr> \<and>
   WayStore_at (WayStore_insert_back \<lparr>mNodeLists = Map.empty\<rparr> (sint (4294967000 :: WayID)) [1, 2])
       4294967000 = Inr [1, 2] \<and>
   WayStore_insert_back \<lparr>mNodeLists = [4294967000 \<mapsto> [1, 2]]\<rparr> (sint (4294967000 :: WayID)) [3]
     = \<lparr>mNodeLists = [4294967000 \<mapsto> [1, 2]]\<rparr> \<and>
   RelationStore_at (RelationStore_insert_back \<lparr>mWayLists = Map.empty\<rparr> 5 [10, 11]) 5
     = Inr [10, 11] \<and>
   RelationStore_insert_back \<lparr>mWayLists = [5 \<mapsto> [10, 11]]\<rparr> 5 [12]
     = \<lparr>mWayLists = [5 \<mapsto> [10, 11]]\<rparr> \<and>
   (\<exists>s'. KeyValArrays_insert_back \<lparr>kv_keys = [1, 5 :: nat], kv_values = [10, 50 :: nat]\<rparr> 9 90
            = (None, s') \<and>
         KeyValArrays_count s' 9 = 1 \<and> KeyValArrays_at s' 9 = Inr 90) \<and>
   KeyValArrays_insert_back \<lparr>kv_keys = [1, 5 :: nat], kv_values = [10, 50 :: nat]\<rparr> 5 77
     = (Some OutOfRange, \<lparr>kv_keys = [1, 5], kv_values = [10, 50]\<rparr>) \<and>
   (\<exists>t' r. IndexedKeyValArrays_insert_back
              \<lparr>ikv_keys = [1, 5 :: nat], ikv_indexes = [0, 2, 3], ikv_values = [7, 8, 9 :: nat]\<rparr>
              9 [4, 6] = (None, t') \<and>
         IndexedKeyValArrays_count t' 9 = 1 \<and> IndexedKeyValArrays_at t' 9 = Inr r \<and>
         range_between (ikv_values t') r = [4, 6]) \<and>
   IndexedKeyValArrays_insert_back
       \<lparr>ikv_keys = [1, 5 :: nat], ikv_indexes = [0, 2, 3], ikv_values = [7, 8, 9 :: nat]\<rparr> 5 [4]
     = (Some OutOfRange, \<lparr>ikv_keys = [1, 5], ikv_indexes = [0, 2, 3], ikv_values = [7, 8, 9]\<rparr>)"
proof -
  let ?s = "\<lparr>kv_keys = [1, 5 :: nat], kv_values = [10, 50 :: nat]\<rparr>"
  let ?t = "\<lparr>ikv_keys = [1, 5 :: nat], ikv_indexes = [0, 2, 3], ikv_values = [7, 8, 9 :: nat]\<rparr>"
  have h1: "KeyValArrays_inv ?s" by (simp add: KeyValArrays_inv_def)
  have h2: "IndexedKeyValArrays_inv ?t" by (simp add: IndexedKeyValArrays_inv_def)
  have c0: "NodeStore_count \<lparr>mLatpLons = Map.empty\<rparr> 7 = 0"
    "WayStore_count \<lparr>mNodeLists = Map.empty\<rparr> 4294967000 = 0"
    "RelationStore_count \<lparr>mWayLists = Map.empty\<rparr> 5 = 0"
    by (simp_all add: NodeStore_count_def WayStore_count_def RelationStore_count_def
        unordered_map_count_def)
  have c1: "NodeStore_count \<lparr>mLatpLons = [7 \<mapsto> \<lparr>latp = 1, lon = 2\<rparr>]\<rparr> 7 = 1"
    "WayStore_count \<lparr>mNodeLists = [4294967000 \<mapsto> [1, 2]]\<rparr> 4294967000 = 1"
    "RelationStore_count \<lparr>mWayLists = [5 \<mapsto> [10, 11]]\<rparr> 5 = 1"
    by (simp_all add: NodeStore_count_def WayStore_count_def RelationStore_count_def
        unordered_map_count_def)
  note a = insert_then_lookup [OF h1 h2,
      where ns = "\<lparr>mLatpLons = Map.empty\<rparr>" and i = 7 and c = "\<lparr>latp = 1, lon = 2\<rparr>"
        and ws = "\<lparr>mNodeLists = Map.empty\<rparr>" and w = 4294967000 and nv = "[1, 2]"
        and rs = "\<lparr>mWayLists = Map.empty\<rparr>" and r = 5 and wv = "[10, 11]"
        and k = 9 and v = 90 and vs = "[4, 6]"]
  note b = insert_then_lookup [OF h1 h2,
      where ns = "\<lparr>mLatpLons = [7 \<mapsto> \<lparr>latp = 1, lon = 2\<rparr>]\<rparr>" and i = 7
        and c = "\<lparr>latp = 3, lon = 4\<rparr>"
        and ws = "\<lparr>mNodeLists = [4294967000 \<mapsto> [1, 2]]\<rparr>" and w = 4294967000 and nv = "[3]"
        and rs = "\<lparr>mWayLists = [5 \<mapsto> [10, 11]]\<rparr>" and r = 5 and wv = "[12]"
        and k = 5 and v = 77 and vs = "[4]"]
  show ?thesis
    using a b c0 c1 by simp
qed

theorem sorted_array_insert_counterexample:
  "KeyValArrays_count \<lparr>kv_keys = [5 :: nat], kv_values = [50 :: nat]\<rparr> 3 = 0 \<and>
   KeyValArrays_insert_back \<lparr>kv_keys = [5 :: nat], kv_values = [50 :: nat]\<rparr> 3 30
     = (Some OutOfRange, \<lparr>kv_keys = [5], kv_values = [50]\<rparr>) \<and>
   KeyValArrays_count
     (snd (KeyValArrays_insert_back \<lparr>kv_keys = [5 :: nat], kv_values = [50 :: nat]\<rparr> 3 30)) 3 = 0 \<and>
   KeyValArrays_at
     (snd (KeyValArrays_insert_back \<lparr>kv_keys = [5 :: nat], kv_values = [50 :: nat]\<rparr> 3 30)) 3
     = Inl OutOfRange \<and>
   IndexedKeyValArrays_count
     \<lparr>ikv_keys = [5 :: nat], ikv_indexes = [0, 1], ikv_values = [50 :: nat]\<rparr> 3 = 0 \<and>
   IndexedKeyValArrays_count
     (snd (IndexedKeyValArrays_insert_back
        \<lparr>ikv_keys = [5 :: nat], ikv_indexes = [0, 1], ikv_values = [50 :: nat]\<rparr> 3 [30])) 3 = 0 \<and>
   IndexedKeyValArrays_at
     (snd (IndexedKeyValArrays_insert_back
        \<lparr>ikv_keys = [5 :: nat], ikv_indexes = [0, 1], ikv_values = [50 :: nat]\<rparr> 3 [30])) 3
     = Inl OutOfRange"
  by (simp add: KeyValArrays_count_def KeyValArrays_insert_back_def KeyValArrays_at_def
      IndexedKeyValArrays_count_def IndexedKeyValArrays_insert_back_def
      IndexedKeyValArrays_at_def binary_search_def lower_bound_def lower_bound_loop.simps)

section \<open>Properties of fillPoints\<close>

subsection \<open>The push loop appends\<close>

lemma fillPoints_loop_appends:
  "fillPoints_loop st ns points lastP cnt = Inr (pts, k) \<Longrightarrow>
     \<exists>ps. pts = points @ ps \<and> k = cnt + length ps"
proof (induction ns arbitrary: points lastP cnt)
  case Nil
  then show ?case by simp
next
  case (Cons n ns)
  then obtain ll where ll: "NodeStore_at (nodes st) n = Inr ll"
    by (cases "NodeStore_at (nodes st) n") auto
  show ?case
  proof (cases "geom_equals (make_Point ll) lastP")
    case True
    then have "fillPoints_loop st ns points (make_Point ll) cnt = Inr (pts, k)"
      using Cons.prems ll by (simp add: Let_def)
    then show ?thesis using Cons.IH by blast
  next
    case False
    then have "fillPoints_loop st ns (points @ [make_Point ll]) (make_Point ll) (cnt + 1) = Inr (pts, k)"
      using Cons.prems ll by (simp add: Let_def)
    from Cons.IH [OF this] show ?thesis by auto
  qed
qed

lemma fillPoints_loop_resolves:
  "\<forall>n\<in>set ns. NodeStore_count (nodes st) n = 1 \<Longrightarrow>
     \<exists>pts k. fillPoints_loop st ns points lastP cnt = Inr (pts, k)"
proof (induction ns arbitrary: points lastP cnt)
  case Nil
  then show ?case by simp
next
  case (Cons n ns)
  then obtain ll where ll: "NodeStore_at (nodes st) n = Inr ll"
    by (auto simp: NodeStore_count_def NodeStore_at_def unordered_map_count_def
        unordered_map_at_def split: option.splits)
  show ?case using Cons ll by (simp add: Let_def)
qed

subsection \<open>The swap loop reverses a segment in place\<close>

lemma length_iter_swap [simp]: "length (iter_swap xs i j) = length xs"
  by (simp add: iter_swap_def)

lemma nth_iter_swap:
  "i < length xs \<Longrightarrow> j < length xs \<Longrightarrow> m < length xs \<Longrightarrow>
     iter_swap xs i j ! m = (if m = j then xs ! i else if m = i then xs ! j else xs ! m)"
  by (auto simp: iter_swap_def nth_list_update)

lemma length_reverse_loop [simp]: "length (reverse_loop xs f b) = length xs"
proof (induction xs f b rule: reverse_loop.induct)
  case (1 xs f b)
  then show ?case by (subst reverse_loop.simps) simp
qed

lemma nth_reverse_loop:
  "0 \<le> f \<Longrightarrow> b < int (length xs) \<Longrightarrow> m < length xs \<Longrightarrow>
     reverse_loop xs f b ! m =
       (if f \<le> int m \<and> int m \<le> b then xs ! nat (f + b - int m) else xs ! m)"
proof (induction xs f b arbitrary: m rule: reverse_loop.induct)
  case (1 xs f b)
  show ?case
  proof (cases "f < b")
    case False
    then have "reverse_loop xs f b = xs" by (subst reverse_loop.simps) simp
    moreover have "f \<le> int m \<and> int m \<le> b \<Longrightarrow> nat (f + b - int m) = m"
      using False by auto
    ultimately show ?thesis by auto
  next
    case True
    let ?xs' = "iter_swap xs (nat f) (nat b)"
    have eq: "reverse_loop xs f b = reverse_loop ?xs' (f + 1) (b - 1)"
      using True by (subst reverse_loop.simps) simp
    have fb: "nat f < length xs" "nat b < length xs"
      using True "1.prems" by auto
    have ih: "reverse_loop ?xs' (f + 1) (b - 1) ! m =
       (if f + 1 \<le> int m \<and> int m \<le> b - 1 then ?xs' ! nat (f + 1 + (b - 1) - int m) else ?xs' ! m)"
      using "1.IH" [OF True, of m] "1.prems" by simp
    show ?thesis
    proof (cases "f + 1 \<le> int m \<and> int m \<le> b - 1")
      case mid: True
      have "nat (f + b - int m) < length xs" using mid "1.prems" by auto
      moreover have "nat (f + b - int m) \<noteq> nat b" "nat (f + b - int m) \<noteq> nat f"
        using mid "1.prems" by auto
      ultimately have "?xs' ! nat (f + b - int m) = xs ! nat (f + b - int m)"
        using fb by (simp add: nth_iter_swap)
      then show ?thesis using mid ih eq by simp
    next
      case out: False
      have "?xs' ! m = (if m = nat b then xs ! nat f else if m = nat f then xs ! nat b else xs ! m)"
        using fb "1.prems"(3) by (simp add: nth_iter_swap)
      moreover have "m = nat b \<Longrightarrow> nat (f + b - int m) = nat f"
        using "1.prems" True by auto
      moreover have "m = nat f \<Longrightarrow> nat (f + b - int m) = nat b"
        using "1.prems" True by auto
      moreover have "m \<noteq> nat b \<Longrightarrow> m \<noteq> nat f \<Longrightarrow> \<not> (f \<le> int m \<and> int m \<le> b)"
        using out "1.prems" by auto
      moreover have "m = nat b \<or> m = nat f \<Longrightarrow> f \<le> int m \<and> int m \<le> b"
        using "1.prems" True by auto
      ultimately show ?thesis using out ih eq by auto
    qed
  qed
qed

lemma reverse_loop_suffix:
  "reverse_loop (s @ ps) (int (length (s @ ps)) - int (length ps)) (int (length (s @ ps)) - 1)
     = s @ rev ps"
proof (rule nth_equalityI)
  show "length (reverse_loop (s @ ps) (int (length (s @ ps)) - int (length ps))
          (int (length (s @ ps)) - 1)) = length (s @ rev ps)"
    by simp
next
  fix m
  assume "m < length (reverse_loop (s @ ps) (int (length (s @ ps)) - int (length ps))
                (int (length (s @ ps)) - 1))"
  then have m: "m < length s + length ps" by simp
  have n: "reverse_loop (s @ ps) (int (length s)) (int (length s) + int (length ps) - 1) ! m =
       (if int (length s) \<le> int m \<and> int m \<le> int (length s) + int (length ps) - 1
        then (s @ ps) ! nat (int (length s) + (int (length s) + int (length ps) - 1) - int m)
        else (s @ ps) ! m)"
    using m by (intro nth_reverse_loop) auto
  show "reverse_loop (s @ ps) (int (length (s @ ps)) - int (length ps))
          (int (length (s @ ps)) - 1) ! m = (s @ rev ps) ! m"
  proof (cases "m < length s")
    case True
    then show ?thesis using n by (simp add: nth_append)
  next
    case False
    define j where "j = m - length s"
    have j: "j < length ps" "m = length s + j" using False m by (simp_all add: j_def)
    have c: "int (length s) \<le> int m \<and> int m \<le> int (length s) + int (length ps) - 1"
      using j by auto
    have i: "nat (int (length s) + (int (length s) + int (length ps) - 1) - int m)
            = length s + (length ps - Suc j)"
      using j by auto
    have "reverse_loop (s @ ps) (int (length s)) (int (length s) + int (length ps) - 1) ! m
            = (s @ ps) ! (length s + (length ps - Suc j))"
      using n c i by (simp only: if_True simp_thms)
    also have "\<dots> = ps ! (length ps - Suc j)"
      by (rule nth_append_length_plus)
    also have "\<dots> = rev ps ! j"
      using j by (simp add: rev_nth)
    also have "\<dots> = (s @ rev ps) ! m"
      using j by (simp add: nth_append)
    finally show ?thesis by simp
  qed
qed

subsection \<open>What fillPoints returns\<close>

lemma fillPoints_forward:
  "fillPoints st sink ns False = Inr r \<longleftrightarrow>
     (\<exists>k. fillPoints_loop st ns sink (if sink \<noteq> [] then last sink else dummy) 0 = Inr (r, k))"
  by (auto simp: fillPoints_def Let_def split: sum.splits)

lemma fillPoints_reversed:
  assumes "fillPoints_loop st ns sink (if sink \<noteq> [] then last sink else dummy) 0
             = Inr (sink @ ps, k)"
  shows "fillPoints st sink ns True =
           (if sink @ ps = [] then Inl UndefinedBehaviour else Inr (sink @ rev ps))"
proof -
  have "k = length ps"
    using fillPoints_loop_appends [OF assms] by auto
  then show ?thesis
    using assms reverse_loop_suffix [of sink ps] by (simp add: fillPoints_def Let_def)
qed

text \<open>
  Where the vector is not empty after the push (the sink is not empty, or the way
  pushes a point), both assemblies return and the reversed one is the reverse of the
  forward one: on the same sink, one call appends \<open>ps\<close> and the other \<open>rev ps\<close>.
\<close>

lemma reversed_assembly_of_nonempty:
  assumes "WayStore_at (ways st) w = Inr nodeList"
    and "\<forall>n\<in>set nodeList. NodeStore_count (nodes st) n = 1"
    and "w \<noteq> PSEUDO_WAY_OUTER_MARK" "w \<noteq> PSEUDO_WAY_INNER_MARK"
      "w \<noteq> PSEUDO_WAY_REVERSE_MARK"
    and "sink \<noteq> [] \<or> fillPoints st sink nodeList False \<noteq> Inr []"
  shows "\<exists>ps. fillPoints st sink nodeList False = Inr (sink @ ps) \<and>
              fillPoints st sink nodeList True = Inr (sink @ rev ps) \<and>
              ring_ways_loop st [w] sink = Inr (sink @ ps, []) \<and>
              ring_ways_loop st [PSEUDO_WAY_REVERSE_MARK, w] sink = Inr (sink @ rev ps, [])"
proof -
  obtain pts k where l:
    "fillPoints_loop st nodeList sink (if sink \<noteq> [] then last sink else dummy) 0 = Inr (pts, k)"
    using fillPoints_loop_resolves [OF assms(2)] by blast
  then obtain ps where ps: "pts = sink @ ps"
    using fillPoints_loop_appends [OF l] by blast
  have f: "fillPoints st sink nodeList False = Inr (sink @ ps)"
    using l ps fillPoints_forward by blast
  have ne: "sink @ ps \<noteq> []"
    using assms(6) f by auto
  have r: "fillPoints st sink nodeList True = Inr (sink @ rev ps)"
    using l ps ne fillPoints_reversed [of st nodeList sink ps k] by simp
  have "ring_ways_loop st [w] sink = Inr (sink @ ps, [])"
    using assms(1,3,4,5) f by simp
  moreover have "ring_ways_loop st [PSEUDO_WAY_REVERSE_MARK, w] sink = Inr (sink @ rev ps, [])"
    using assms(1) r
    by (simp add: PSEUDO_WAY_OUTER_MARK_def PSEUDO_WAY_INNER_MARK_def
        PSEUDO_WAY_REVERSE_MARK_def)
  ultimately show ?thesis using f r by blast
qed

text \<open>
  Claim C5. For every stored way whose node IDs all resolve, the points assembled for
  \<open>REVERSE_MARK\<close> followed by the way's ID are to be the reverse of the points assembled
  for the way's ID alone. The code misses the case of a stored way without nodes at the
  start of a ring: the forward assembly returns the empty ring, whose reverse is the
  empty ring, but the reversed assembly takes \<open>end - 1\<close> of the empty vector and swaps
  through it.
\<close>

theorem reverse_mark_empty_way_undefined:
  "WayStore_at (ways example_store) 40 = Inr [] \<and>
   fillPoints example_store [] [] False = Inr [] \<and>
   fillPoints example_store [] [] True = Inl UndefinedBehaviour \<and>
   ring_ways_loop example_store [40] [] = Inr ([], []) \<and>
   ring_ways_loop example_store [PSEUDO_WAY_REVERSE_MARK, 40] [] = Inl UndefinedBehaviour \<and>
   wayListMultiPolygon box_geom example_store [40] = Inr [\<lparr>outer = [], inners = []\<rparr>] \<and>
   wayListMultiPolygon box_geom example_store [PSEUDO_WAY_REVERSE_MARK, 40]
     = Inl UndefinedBehaviour"
  by code_simp

text \<open>
  Claim C6. With \<open>reverse = true\<close>, \<open>fillPoints\<close> reverses exactly the \<open>k\<close> points
  it pushed in this call: the sink keeps its length after the push loop, every point that
  was in the sink before the call keeps its value and position, and the part behind them
  is the reverse of the pushed points.
\<close>

theorem fillPoints_reverse_frame:
  assumes "fillPoints st sink nodeList True = Inr r"
  shows "\<exists>pts k. fillPoints_loop st nodeList sink (if sink \<noteq> [] then last sink else dummy) 0
                   = Inr (pts, k) \<and>
           length pts = length sink + k \<and> length r = length pts \<and>
           take (length sink) pts = sink \<and> take (length sink) r = sink \<and>
           (\<forall>i<length sink. r ! i = sink ! i) \<and>
           drop (length sink) r = rev (drop (length sink) pts)"
proof -
  obtain pts k where l:
    "fillPoints_loop st nodeList sink (if sink \<noteq> [] then last sink else dummy) 0 = Inr (pts, k)"
    using assms by (auto simp: fillPoints_def Let_def split: sum.splits)
  then obtain ps where ps: "pts = sink @ ps" "k = length ps"
    using fillPoints_loop_appends [OF l] by auto
  have "fillPoints st sink nodeList True =
          (if sink @ ps = [] then Inl UndefinedBehaviour else Inr (sink @ rev ps))"
    using l ps fillPoints_reversed by blast
  then have r: "r = sink @ rev ps"
    using assms by (simp split: if_splits)
  show ?thesis
    using l ps r by (auto simp: nth_append)
qed

theorem fillPoints_reverse_frame_witness:
  "fillPoints example_store [(9, 9), (0, 0)] [1, 2, 2, 3] True
     = Inr [(9, 9), (0, 0), (8, 8), (8, 0)] \<and>
   (\<exists>pts k. fillPoints_loop example_store [1, 2, 2, 3] [(9, 9), (0, 0)] (0, 0) 0 = Inr (pts, k) \<and>
      length pts = 2 + k \<and> k = 2 \<and>
      take 2 [(9, 9), (0, 0), (8, 8), (8 :: real, 0 :: real)] = [(9, 9), (0, 0)] \<and>
      drop 2 [(9, 9), (0, 0), (8, 8), (8 :: real, 0 :: real)] = rev (drop 2 pts))"
proof -
  have f: "fillPoints example_store [(9, 9), (0, 0)] [1, 2, 2, 3] True
             = Inr [(9, 9), (0, 0), (8, 8), (8, 0)]"
    by (simp add: fillPoints_def store_eval reverse_loop.simps iter_swap_def)
  have l: "fillPoints_loop example_store [1, 2, 2, 3] [(9, 9), (0, 0)] (0, 0) 0
             = Inr ([(9, 9), (0, 0), (8, 0), (8, 8)], 2)"
    by (simp add: store_eval)
  show ?thesis
    using fillPoints_reverse_frame [OF f] f l by simp
qed

subsection \<open>No zero-length edge\<close>

lemma no_adjacent_equal_snoc:
  "no_adjacent_equal (ps @ [p]) \<longleftrightarrow>
     no_adjacent_equal ps \<and> (ps = [] \<or> \<not> geom_equals (last ps) p)"
proof (induction ps rule: no_adjacent_equal.induct)
  case (1 a b ps)
  then show ?case by auto
qed simp_all

lemma fillPoints_loop_no_adjacent_equal:
  "fillPoints_loop st ns points lastP cnt = Inr (pts, k) \<Longrightarrow> no_adjacent_equal points \<Longrightarrow>
     (points \<noteq> [] \<Longrightarrow> lastP = last points) \<Longrightarrow> no_adjacent_equal pts"
proof (induction ns arbitrary: points lastP cnt)
  case Nil
  then show ?case by simp
next
  case (Cons n ns)
  then obtain ll where ll: "NodeStore_at (nodes st) n = Inr ll"
    by (cases "NodeStore_at (nodes st) n") auto
  show ?case
  proof (cases "geom_equals (make_Point ll) lastP")
    case True
    then have "fillPoints_loop st ns points (make_Point ll) cnt = Inr (pts, k)"
      using Cons.prems(1) ll by (simp add: Let_def)
    moreover have "points \<noteq> [] \<Longrightarrow> make_Point ll = last points"
      using True Cons.prems(3) by (simp add: geom_equals_def)
    ultimately show ?thesis using Cons.IH Cons.prems(2) by blast
  next
    case False
    then have "fillPoints_loop st ns (points @ [make_Point ll]) (make_Point ll) (cnt + 1)
                 = Inr (pts, k)"
      using Cons.prems(1) ll by (simp add: Let_def)
    moreover have "no_adjacent_equal (points @ [make_Point ll])"
      using False Cons.prems(2,3) by (auto simp: no_adjacent_equal_snoc geom_equals_def)
    ultimately show ?thesis using Cons.IH by simp
  qed
qed

text \<open>
  Claim C4 (as amended). When the sink has no two adjacent equal points before the call
  and \<open>reverse\<close> is false, it has none after \<open>fillPoints\<close>: a translated point is
  skipped when it equals the point at the end of the sink, also when that point was in
  the sink before the call.
\<close>

theorem fillPoints_no_adjacent_equal:
  assumes "no_adjacent_equal sink" and "fillPoints st sink nodeList False = Inr r"
  shows "no_adjacent_equal r \<and>
         (\<forall>n rest ll. nodeList = n # rest \<and> sink \<noteq> [] \<and>
              NodeStore_at (nodes st) n = Inr ll \<and> geom_equals (make_Point ll) (last sink) \<longrightarrow>
            fillPoints st sink rest False = Inr r)"
proof
  obtain k where
    "fillPoints_loop st nodeList sink (if sink \<noteq> [] then last sink else dummy) 0 = Inr (r, k)"
    using assms(2) fillPoints_forward by blast
  then show "no_adjacent_equal r"
    using fillPoints_loop_no_adjacent_equal assms(1) by fastforce
  show "\<forall>n rest ll. nodeList = n # rest \<and> sink \<noteq> [] \<and>
              NodeStore_at (nodes st) n = Inr ll \<and> geom_equals (make_Point ll) (last sink) \<longrightarrow>
            fillPoints st sink rest False = Inr r"
    using assms(2) by (auto simp: fillPoints_def Let_def geom_equals_def)
qed

theorem fillPoints_no_adjacent_equal_witness:
  "no_adjacent_equal [(9, 9), (0, 0)] \<and>
   fillPoints example_store [(9, 9), (0, 0)] [1, 2, 2, 3] False
     = Inr [(9, 9), (0, 0), (8, 0), (8, 8)] \<and>
   no_adjacent_equal [(9, 9), (0, 0), (8, 0), (8, 8)] \<and>
   fillPoints example_store [(9, 9), (0, 0)] [2, 2, 3] False
     = Inr [(9, 9), (0, 0), (8, 0), (8, 8)]"
proof -
  have a: "no_adjacent_equal [(9, 9), (0, 0)]"
    by (simp add: geom_equals_def)
  have f: "fillPoints example_store [(9, 9), (0, 0)] [1, 2, 2, 3] False
             = Inr [(9, 9), (0, 0), (8, 0), (8, 8)]"
    by (simp add: fillPoints_def store_eval)
  have n: "NodeStore_at (nodes example_store) 1 = Inr (at_xy 0 0)"
    by (simp add: store_eval)
  show ?thesis
    using fillPoints_no_adjacent_equal [OF a f] a f n by (simp add: geom_equals_def)
qed

theorem fillPoints_adjacent_equal_counterexample:
  "no_adjacent_equal [(0, 0)] \<and>
   fillPoints example_store [(0, 0)] [2, 1] True = Inr [(0, 0), (0, 0), (8, 0)] \<and>
   \<not> no_adjacent_equal [(0, 0), (0, 0), (8, 0)] \<and>
   fillPoints example_store [(3, 3), (3, 3)] [] False = Inr [(3, 3), (3, 3)] \<and>
   \<not> no_adjacent_equal [(3, 3), (3, 3)]"
  by (simp add: fillPoints_def store_eval reverse_loop.simps iter_swap_def)

section \<open>Properties of the parent tile index\<close>

lemma low16: "(y :: 32 word) < 65536 \<Longrightarrow> take_bit 16 y = y"
  using less_mask_eq [of y 16] by (simp add: take_bit_eq_mask)

lemma low16_bits: "(y :: 32 word) < 65536 \<Longrightarrow> bit y n \<Longrightarrow> n < 16"
proof -
  assume a: "y < 65536" "bit y n"
  have "bit (take_bit 16 y) n" using a low16 by simp
  then show ?thesis by (simp add: bit_take_bit_iff)
qed

lemma unpack_x:
  assumes "(x :: 32 word) < 65536" "(y :: 32 word) < 65536"
  shows "drop_bit 16 (push_bit 16 x OR y) = x"
proof (rule bit_word_eqI)
  fix n assume "n < LENGTH(32)"
  then show "bit (drop_bit 16 (push_bit 16 x OR y)) n = bit x n"
    using low16_bits [OF assms(2), of "16 + n"] low16_bits [OF assms(1), of n]
    by (auto simp: bit_drop_bit_eq bit_or_iff bit_push_bit_iff)
qed

lemma unpack_y:
  assumes "(y :: 32 word) < 65536"
  shows "(push_bit 16 x OR y) AND 65535 = y"
proof -
  have m: "(65535 :: 32 word) = mask 16" by (simp add: mask_eq_exp_minus_1)
  have "take_bit 16 (push_bit 16 x OR y) = y"
    by (simp add: take_bit_or low16 [OF assms] take_bit_push_bit)
  then show ?thesis
    unfolding m by (simp add: take_bit_eq_mask)
qed

lemma unat_drop_bit_div: "unat (drop_bit d (a :: 32 word)) = unat a div 2 ^ d"
  unfolding unat_drop_bit_eq by (rule drop_bit_eq_div)

lemma floor_shift:
  "(word_of_int \<lfloor>real (unat (a :: 32 word)) / 2 ^ d\<rfloor> :: 32 word) = drop_bit d a"
proof -
  have "\<lfloor>real (unat a) / 2 ^ d\<rfloor> = int (unat a div 2 ^ d)"
    using floor_divide_of_nat_eq [of "unat a" "2 ^ d", where ?'a = real] by simp
  then have "\<lfloor>real (unat a) / 2 ^ d\<rfloor> = int (unat (drop_bit d a))"
    by (simp only: unat_drop_bit_div)
  then show ?thesis by simp
qed

lemma pack_plus_or:
  assumes "(b :: 32 word) < 65536"
  shows "push_bit 16 a + b = push_bit 16 a OR b"
proof -
  have "push_bit 16 a AND b = 0"
  proof (rule bit_word_eqI)
    fix n assume "n < LENGTH(32)"
    show "bit (push_bit 16 a AND b) n = bit (0 :: 32 word) n"
      using low16_bits [OF assms, of n] by (auto simp: bit_and_iff bit_push_bit_iff)
  qed
  then show ?thesis by (rule disjunctive_add_eq_or)
qed

lemma drop_bit_low16: "(y :: 32 word) < 65536 \<Longrightarrow> drop_bit d y < 65536"
proof -
  assume a: "y < 65536"
  have "unat (drop_bit d y) \<le> unat y"
    unfolding unat_drop_bit_div by (rule div_le_dividend)
  then have "drop_bit d y \<le> y" by (simp add: word_le_nat_alt)
  then show ?thesis using a by simp
qed

text \<open>
  Claim C8. For a packed base-zoom tile ID \<open>(x << 16) | y\<close> with \<open>x, y < 2^16\<close> and a
  zoom below the base zoom, the remapping of the emitter yields
  \<open>((x >> (baseZoom - zoom)) << 16) | (y >> (baseZoom - zoom))\<close>.
\<close>

theorem parent_index_commutes:
  assumes "x < 65536" and "y < 65536" and "zoom < baseZoom"
  shows "parent_index (push_bit 16 x OR y) baseZoom zoom =
           push_bit 16 (drop_bit (unat baseZoom - unat zoom) x)
             OR drop_bit (unat baseZoom - unat zoom) y"
proof -
  have d: "unat (baseZoom - zoom) = unat baseZoom - unat zoom"
    using assms(3) by (simp add: unat_sub word_less_def word_le_def)
  have "parent_index (push_bit 16 x OR y) baseZoom zoom =
          push_bit 16 (drop_bit (unat baseZoom - unat zoom) x)
            + drop_bit (unat baseZoom - unat zoom) y"
    unfolding parent_index_def Let_def unpack_x [OF assms(1,2)] unpack_y [OF assms(2)]
      floor_shift d ..
  then show ?thesis
    using pack_plus_or [OF drop_bit_low16 [OF assms(2)]] by simp
qed

theorem parent_index_commutes_witness:
  "(5 :: 32 word) < 65536 \<and> (9 :: 32 word) < 65536 \<and> (12 :: 32 word) < 14 \<and>
   parent_index (push_bit 16 5 OR 9) 14 12 = push_bit 16 1 OR 2 \<and>
   parent_index 327689 14 12 = 65538"
  using parent_index_commutes [of 5 9 12 14] by (simp add: drop_bit_eq_div)

section \<open>Properties of wayListMultiPolygon\<close>

lemma ring_ways_loop_stops_at_mark:
  "ring_ways_loop st ws r0 = Inr (ring, []) \<Longrightarrow> R = [] \<or> is_ring_mark (hd R) \<Longrightarrow>
     ring_ways_loop st (ws @ R) r0 = Inr (ring, R)"
proof (induction st ws r0 rule: ring_ways_loop.induct)
  case (1 st r0)
  then show ?case by (cases R) (auto simp: is_ring_mark_def)
next
  case (2 st w rest r0)
  show ?case
  proof (cases "w = PSEUDO_WAY_OUTER_MARK \<or> w = PSEUDO_WAY_INNER_MARK")
    case True
    then show ?thesis using "2.prems" by auto
  next
    case nm: False
    show ?thesis
    proof (cases "w = PSEUDO_WAY_REVERSE_MARK")
      case True
      then obtain w' rest' where r: "rest = w' # rest'"
        using "2.prems"(1) nm by (cases rest) auto
      obtain nl where nl: "WayStore_at (ways st) w' = Inr nl"
        using "2.prems"(1) nm True r by (cases "WayStore_at (ways st) w'") auto
      obtain ring' where f: "fillPoints st r0 nl True = Inr ring'"
        using "2.prems"(1) nm True r nl by (cases "fillPoints st r0 nl True") auto
      have "ring_ways_loop st rest' ring' = Inr (ring, [])"
        using "2.prems"(1) nm True r nl f by simp
      then have "ring_ways_loop st (rest' @ R) ring' = Inr (ring, R)"
        using "2.IH"(1) [OF nm True r nl f] "2.prems"(2) by simp
      then show ?thesis using nm True r nl f by simp
    next
      case False
      obtain nl where nl: "WayStore_at (ways st) w = Inr nl"
        using "2.prems"(1) nm False by (cases "WayStore_at (ways st) w") auto
      obtain ring' where f: "fillPoints st r0 nl False = Inr ring'"
        using "2.prems"(1) nm False nl by (cases "fillPoints st r0 nl False") auto
      have "ring_ways_loop st rest ring' = Inr (ring, [])"
        using "2.prems"(1) nm False nl f by simp
      then have "ring_ways_loop st (rest @ R) ring' = Inr (ring, R)"
        using "2.IH"(2) [OF nm False nl f] "2.prems"(2) by simp
      then show ?thesis using nm False nl f by simp
    qed
  qed
qed

lemma encode_tail_starts_with_mark:
  "\<forall>(m, ws, ring)\<in>set segs. is_ring_mark m \<Longrightarrow>
     concat (map (\<lambda>(m, ws, ring). m # ws) segs) = [] \<or>
     is_ring_mark (hd (concat (map (\<lambda>(m, ws, ring). m # ws) segs)))"
  by (cases segs) auto

lemma marks_differ: "PSEUDO_WAY_INNER_MARK \<noteq> PSEUDO_WAY_OUTER_MARK"
  by (simp add: PSEUDO_WAY_INNER_MARK_def PSEUDO_WAY_OUTER_MARK_def)

lemma place_rings_nonempty: "mp \<noteq> [] \<Longrightarrow> place_rings mp rs \<noteq> []"
  by (induction mp rs rule: place_rings.induct) auto

lemma loop_places_following_rings:
  assumes "\<forall>(m, ws, ring)\<in>set segs. is_ring_mark m \<and> ring_ways_loop st ws [] = Inr (ring, [])"
    and "mp \<noteq> []"
  shows "(if concat (map (\<lambda>(m, ws, ring). m # ws) segs) \<noteq> []
          then wayListMultiPolygon_loop st (concat (map (\<lambda>(m, ws, ring). m # ws) segs)) False mp
          else Inr mp)
         = Inr (place_rings mp (map (\<lambda>(m, ws, ring). (m, ring)) segs))"
  using assms
proof (induction segs arbitrary: mp)
  case Nil
  then show ?case by simp
next
  case (Cons seg segs)
  obtain m ws ring where seg: "seg = (m, ws, ring)" by (cases seg) auto
  let ?R = "concat (map (\<lambda>(m, ws, ring). m # ws) segs)"
  have m: "is_ring_mark m" and r: "ring_ways_loop st ws [] = Inr (ring, [])"
    using Cons.prems(1) seg by auto
  have tl: "\<forall>(m, ws, ring)\<in>set segs. is_ring_mark m \<and> ring_ways_loop st ws [] = Inr (ring, [])"
    using Cons.prems(1) by simp
  have "\<forall>(m, ws, ring)\<in>set segs. is_ring_mark m"
    using tl by auto
  then have "?R = [] \<or> is_ring_mark (hd ?R)"
    by (rule encode_tail_starts_with_mark)
  then have rr: "ring_ways_loop st (ws @ ?R) [] = Inr (ring, ?R)"
    using ring_ways_loop_stops_at_mark [OF r] by simp
  let ?mp' = "if m = PSEUDO_WAY_OUTER_MARK then mp @ [new_polygon ring]
              else butlast mp @ [(last mp)\<lparr>inners := inners (last mp) @ [ring]\<rparr>]"
  have ne: "?mp' \<noteq> []" by simp
  have step: "wayListMultiPolygon_loop st (m # ws @ ?R) False mp =
          (if ?R \<noteq> [] then wayListMultiPolygon_loop st ?R False ?mp' else Inr ?mp')"
    using rr Cons.prems(2)
    by (subst wayListMultiPolygon_loop.simps) (simp add: new_polygon_def)
  show ?case
    using Cons.IH [OF tl ne] step by (simp add: seg)
qed

lemma loop_places_rings:
  assumes "ring_ways_loop st ws0 [] = Inr (ring0, [])"
    and "\<forall>(m, ws, ring)\<in>set segs. is_ring_mark m \<and> ring_ways_loop st ws [] = Inr (ring, [])"
  shows "wayListMultiPolygon_loop st (encode_rings ws0 segs) True []
           = Inr (place_rings [new_polygon ring0] (map (\<lambda>(m, ws, ring). (m, ring)) segs))"
proof -
  let ?R = "concat (map (\<lambda>(m, ws, ring). m # ws) segs)"
  have "\<forall>(m, ws, ring)\<in>set segs. is_ring_mark m"
    using assms(2) by auto
  then have "?R = [] \<or> is_ring_mark (hd ?R)"
    by (rule encode_tail_starts_with_mark)
  then have rr: "ring_ways_loop st (ws0 @ ?R) [] = Inr (ring0, ?R)"
    using ring_ways_loop_stops_at_mark [OF assms(1)] by simp
  have "wayListMultiPolygon_loop st (ws0 @ ?R) True [] =
          (if ?R \<noteq> [] then wayListMultiPolygon_loop st ?R False [new_polygon ring0]
           else Inr [new_polygon ring0])"
    using rr by (subst wayListMultiPolygon_loop.simps) (simp add: new_polygon_def)
  then show ?thesis
    using loop_places_following_rings [OF assms(2), of "[new_polygon ring0]"]
    by (simp add: encode_rings_def)
qed

lemma single_way_ring:
  assumes "WayStore_at (ways st) w = Inr nodeList"
    and "\<forall>n\<in>set nodeList. NodeStore_count (nodes st) n = 1"
    and "\<not> is_ring_mark w" "w \<noteq> PSEUDO_WAY_REVERSE_MARK"
  shows "\<exists>ring. ring_ways_loop st [w] [] = Inr (ring, [])"
proof -
  obtain pts k where "fillPoints_loop st nodeList [] dummy 0 = Inr (pts, k)"
    using fillPoints_loop_resolves [OF assms(2)] by blast
  then have "fillPoints st [] nodeList False = Inr pts"
    using fillPoints_forward [of st "[]" nodeList pts] by auto
  then show ?thesis using assms(1,3,4) by (simp add: is_ring_mark_def)
qed

lemma two_shapes:
  assumes "map (\<lambda>p. length (inners p)) mp = [0, 0]"
  shows "\<exists>p1 p2. mp = [p1, p2] \<and> inners p1 = [] \<and> inners p2 = []"
proof -
  obtain p1 r1 where a: "mp = p1 # r1" "length (inners p1) = 0"
    "map (\<lambda>p. length (inners p)) r1 = [0]"
    using assms by (auto simp: map_eq_Cons_conv)
  obtain p2 where b: "r1 = [p2]" "length (inners p2) = 0"
    using a(3) by (auto simp: map_eq_Cons_conv)
  show ?thesis using a b by simp
qed

text \<open>
  Claim C2. \<open>wayListMultiPolygon\<close> walks the encoded way sequence left to right and
  places its rings as the state machine \<open>place_rings\<close> does: the first ring and every
  ring after an \<open>OUTER_MARK\<close> start a new polygon with that ring as its outer, every ring
  after an \<open>INNER_MARK\<close> is appended to the inner rings of the current polygon. In
  particular, when ways 10 and 11 are stored with resolvable nodes, the encoding
  \<open>[10, OUTER_MARK, 11]\<close> yields exactly two polygons, each without inner rings (the
  library's \<open>correct\<close> keeps the number of polygons and of their inner rings).
\<close>

theorem wayListMultiPolygon_places_rings:
  "(ring_ways_loop st ws0 [] = Inr (ring0, []) \<and>
    (\<forall>(m, ws, ring)\<in>set segs. is_ring_mark m \<and> ring_ways_loop st ws [] = Inr (ring, [])) \<and>
    encode_rings ws0 segs \<noteq> [] \<longrightarrow>
      wayListMultiPolygon g st (encode_rings ws0 segs) =
        Inr (correct_multipolygon g
               (place_rings [new_polygon ring0] (map (\<lambda>(m, ws, ring). (m, ring)) segs)))) \<and>
   (WayStore_at (ways st) 10 = Inr n10 \<and> (\<forall>n\<in>set n10. NodeStore_count (nodes st) n = 1) \<and>
    WayStore_at (ways st) 11 = Inr n11 \<and> (\<forall>n\<in>set n11. NodeStore_count (nodes st) n = 1) \<and>
    (\<forall>mp. map (\<lambda>p. length (inners p)) (correct_multipolygon g mp)
            = map (\<lambda>p. length (inners p)) mp) \<longrightarrow>
      (\<exists>p1 p2. wayListMultiPolygon g st [10, PSEUDO_WAY_OUTER_MARK, 11] = Inr [p1, p2] \<and>
               inners p1 = [] \<and> inners p2 = []))"
proof (intro conjI impI)
  assume a: "ring_ways_loop st ws0 [] = Inr (ring0, []) \<and>
    (\<forall>(m, ws, ring)\<in>set segs. is_ring_mark m \<and> ring_ways_loop st ws [] = Inr (ring, [])) \<and>
    encode_rings ws0 segs \<noteq> []"
  then show "wayListMultiPolygon g st (encode_rings ws0 segs) =
        Inr (correct_multipolygon g
               (place_rings [new_polygon ring0] (map (\<lambda>(m, ws, ring). (m, ring)) segs)))"
    using loop_places_rings [of st ws0 ring0 segs] by (simp add: wayListMultiPolygon_def)
next
  assume a: "WayStore_at (ways st) 10 = Inr n10 \<and> (\<forall>n\<in>set n10. NodeStore_count (nodes st) n = 1) \<and>
    WayStore_at (ways st) 11 = Inr n11 \<and> (\<forall>n\<in>set n11. NodeStore_count (nodes st) n = 1) \<and>
    (\<forall>mp. map (\<lambda>p. length (inners p)) (correct_multipolygon g mp)
            = map (\<lambda>p. length (inners p)) mp)"
  have nm: "\<not> is_ring_mark (10 :: WayID)" "(10 :: WayID) \<noteq> PSEUDO_WAY_REVERSE_MARK"
    "\<not> is_ring_mark (11 :: WayID)" "(11 :: WayID) \<noteq> PSEUDO_WAY_REVERSE_MARK"
    by (simp_all add: is_ring_mark_def PSEUDO_WAY_OUTER_MARK_def PSEUDO_WAY_INNER_MARK_def
        PSEUDO_WAY_REVERSE_MARK_def)
  obtain r10 where r10: "ring_ways_loop st [10] [] = Inr (r10, [])"
    using single_way_ring [OF _ _ nm(1,2)] a by blast
  obtain r11 where r11: "ring_ways_loop st [11] [] = Inr (r11, [])"
    using single_way_ring [OF _ _ nm(3,4)] a by blast
  have e: "encode_rings [10] [(PSEUDO_WAY_OUTER_MARK, [11], r11)] = [10, PSEUDO_WAY_OUTER_MARK, 11]"
    by (simp add: encode_rings_def)
  have "wayListMultiPolygon_loop st (encode_rings [10] [(PSEUDO_WAY_OUTER_MARK, [11], r11)]) True []
          = Inr [new_polygon r10, new_polygon r11]"
    using loop_places_rings [OF r10, of "[(PSEUDO_WAY_OUTER_MARK, [11], r11)]"] r11
    by (simp add: is_ring_mark_def)
  then have w: "wayListMultiPolygon g st [10, PSEUDO_WAY_OUTER_MARK, 11]
          = Inr (correct_multipolygon g [new_polygon r10, new_polygon r11])"
    unfolding e by (simp add: wayListMultiPolygon_def)
  have "map (\<lambda>p. length (inners p)) (correct_multipolygon g [new_polygon r10, new_polygon r11])
          = [0, 0]"
    using a by (simp add: new_polygon_def)
  from two_shapes [OF this] w
  show "\<exists>p1 p2. wayListMultiPolygon g st [10, PSEUDO_WAY_OUTER_MARK, 11] = Inr [p1, p2] \<and>
               inners p1 = [] \<and> inners p2 = []"
    by auto
qed

theorem wayListMultiPolygon_places_rings_witness:
  "wayListMultiPolygon box_geom example_store
       [10, PSEUDO_WAY_INNER_MARK, 20, PSEUDO_WAY_OUTER_MARK, PSEUDO_WAY_REVERSE_MARK, 11]
     = Inr [\<lparr>outer = [(0, 0), (0, 8), (8, 8), (8, 0), (0, 0)],
              inners = [[(5, 5), (5, 7), (7, 7), (7, 5), (5, 5)]]\<rparr>,
            \<lparr>outer = [(20, 20), (24, 20), (24, 24), (20, 24), (20, 20)], inners = []\<rparr>] \<and>
   (\<exists>p1 p2. wayListMultiPolygon box_geom example_store [10, PSEUDO_WAY_OUTER_MARK, 11]
               = Inr [p1, p2] \<and> inners p1 = [] \<and> inners p2 = [])"
proof -
  have r0: "ring_ways_loop example_store [10] []
              = Inr ([(0, 0), (0, 8), (8, 8), (8, 0), (0, 0)], [])"
    by (simp add: ring_eval)
  have r1: "ring_ways_loop example_store [20] []
              = Inr ([(5, 5), (5, 7), (7, 7), (7, 5), (5, 5)], [])"
    by (simp add: ring_eval)
  have r2: "ring_ways_loop example_store [PSEUDO_WAY_REVERSE_MARK, 11] []
              = Inr ([(20, 20), (24, 20), (24, 24), (20, 24), (20, 20)], [])"
    by (simp add: ring_eval)
  have w: "WayStore_at (ways example_store) 10 = Inr [1, 4, 3, 2, 1]"
    "WayStore_at (ways example_store) 11 = Inr [13, 16, 15, 14, 13]"
    "\<forall>n\<in>set [1, 4, 3, 2, 1]. NodeStore_count (nodes example_store) n = 1"
    "\<forall>n\<in>set [13, 16, 15, 14, 13]. NodeStore_count (nodes example_store) n = 1"
    by (simp_all add: store_eval)
  have g: "\<forall>mp. map (\<lambda>p. length (inners p)) (correct_multipolygon box_geom mp)
            = map (\<lambda>p. length (inners p)) mp"
    by (simp add: box_geom_def)
  note t = wayListMultiPolygon_places_rings
      [where st = example_store and g = box_geom and ?ws0.0 = "[10]"
        and ?ring0.0 = "[(0, 0), (0, 8), (8, 8), (8, 0), (0, 0)]"
        and segs = "[(PSEUDO_WAY_INNER_MARK, [20], [(5, 5), (5, 7), (7, 7), (7, 5), (5, 5)]),
                     (PSEUDO_WAY_OUTER_MARK, [PSEUDO_WAY_REVERSE_MARK, 11],
                      [(20, 20), (24, 20), (24, 24), (20, 24), (20, 20)])]"
        and ?n10.0 = "[1, 4, 3, 2, 1]" and ?n11.0 = "[13, 16, 15, 14, 13]"]
  show ?thesis
    using t r0 r1 r2 w g
    by (simp add: encode_rings_def is_ring_mark_def new_polygon_def marks_differ box_geom_def)
qed

section \<open>Properties of correctMultiPolygonRelation\<close>

subsection \<open>The ring walk ends\<close>










subsection \<open>The parent of an inner ring\<close>

lemma find_parent_prefix:
  assumes "i \<le> length outs"
  shows "case fold (find_parent_body g inner outs) [0..<i] None of
           None \<Rightarrow> (\<forall>j<i. \<not> geom_within g inner (outs ! j))
         | Some p \<Rightarrow> p < i \<and> geom_within g inner (outs ! p)"
  using assms
proof (induction i)
  case 0
  then show ?case by simp
next
  case (Suc i)
  let ?P = "fold (find_parent_body g inner outs) [0..<i] None"
  have ih: "case ?P of
           None \<Rightarrow> (\<forall>j<i. \<not> geom_within g inner (outs ! j))
         | Some p \<Rightarrow> p < i \<and> geom_within g inner (outs ! p)"
    using Suc by simp
  have step: "fold (find_parent_body g inner outs) [0..<Suc i] None
                = find_parent_body g inner outs i ?P"
    by simp
  show ?case
    unfolding step using ih
    by (auto simp: find_parent_body_def less_Suc_eq split: option.splits)
qed

text \<open>
  Once the scan has passed a smallest enclosing candidate \<open>m\<close>, the parent is \<open>m\<close> or
  a ring within \<open>m\<close>.
\<close>

lemma find_parent_prefix_smallest:
  assumes "within_transitive g outs" and "smallest_candidate g inner outs m"
    and "i \<le> length outs" and "m < i"
  shows "\<exists>p. fold (find_parent_body g inner outs) [0..<i] None = Some p \<and>
             p < i \<and> geom_within g inner (outs ! p) \<and>
             (p = m \<or> geom_within g (outs ! p) (outs ! m))"
  using assms(3,4)
proof (induction i)
  case 0
  then show ?case by simp
next
  case (Suc i)
  let ?P = "fold (find_parent_body g inner outs) [0..<i] None"
  have m: "m < length outs" "geom_within g inner (outs ! m)"
    and least: "\<And>j. j < length outs \<Longrightarrow> j \<noteq> m \<Longrightarrow> geom_within g inner (outs ! j) \<Longrightarrow>
                  geom_within g (outs ! m) (outs ! j)"
    using assms(2) by (simp_all add: smallest_candidate_def)
  have i: "i < length outs" using Suc.prems(1) by simp
  have step: "fold (find_parent_body g inner outs) [0..<Suc i] None
                = find_parent_body g inner outs i ?P"
    by simp
  have basic: "case ?P of
           None \<Rightarrow> (\<forall>j<i. \<not> geom_within g inner (outs ! j))
         | Some p \<Rightarrow> p < i \<and> geom_within g inner (outs ! p)"
    using find_parent_prefix [of i outs g inner] i by simp
  show ?case
  proof (cases "i = m")
    case True
    have "find_parent_body g inner outs i ?P = Some m"
    proof (cases ?P)
      case None
      then show ?thesis using m(2) True by (simp add: find_parent_body_def)
    next
      case (Some p)
      then have "p < m" "geom_within g inner (outs ! p)" using basic True by simp_all
      then have "geom_within g (outs ! m) (outs ! p)"
        using least [of p] m(1) by simp
      then show ?thesis using Some m(2) True by (simp add: find_parent_body_def)
    qed
    then show ?thesis unfolding step using m(2) True by simp
  next
    case False
    then have "m < i" using Suc.prems(2) by simp
    from Suc.IH [OF _ this] i
    obtain p where p: "?P = Some p" "p < i" "geom_within g inner (outs ! p)"
      "p = m \<or> geom_within g (outs ! p) (outs ! m)"
      by auto
    show ?thesis
    proof (cases "geom_within g inner (outs ! i) \<and> geom_within g (outs ! i) (outs ! p)")
      case True
      then have r: "find_parent_body g inner outs i ?P = Some i"
        using p(1) by (simp add: find_parent_body_def)
      have "geom_within g (outs ! i) (outs ! m)"
      proof (cases "p = m")
        case True
        then show ?thesis using \<open>geom_within g inner (outs ! i) \<and> geom_within g (outs ! i) (outs ! p)\<close>
          by simp
      next
        case False
        then have "geom_within g (outs ! p) (outs ! m)" using p(4) by simp
        moreover have "p < length outs" using p(2) i by simp
        ultimately show ?thesis
          using True i m(1) assms(1) unfolding within_transitive_def by blast
      qed
      then show ?thesis unfolding step r using True by simp
    next
      case False
      then have "find_parent_body g inner outs i ?P = Some p"
        using p(1) by (auto simp: find_parent_body_def)
      then show ?thesis unfolding step using p by auto
    qed
  qed
qed

lemma find_parent_smallest:
  assumes "within_transitive g outs" and "smallest_candidate g inner outs m"
    and "find_parent g inner outs = Some p"
  shows "smallest_candidate g inner outs p"
proof -
  have m: "m < length outs" "geom_within g inner (outs ! m)"
    and least: "\<And>j. j < length outs \<Longrightarrow> j \<noteq> m \<Longrightarrow> geom_within g inner (outs ! j) \<Longrightarrow>
                  geom_within g (outs ! m) (outs ! j)"
    using assms(2) by (simp_all add: smallest_candidate_def)
  have p: "p < length outs" "geom_within g inner (outs ! p)"
    "p = m \<or> geom_within g (outs ! p) (outs ! m)"
    using find_parent_prefix_smallest [OF assms(1,2) order_refl m(1)] assms(3)
    by (simp_all add: find_parent_def)
  have "geom_within g (outs ! p) (outs ! j)"
    if j: "j < length outs" "j \<noteq> p" "geom_within g inner (outs ! j)" for j
  proof (cases "p = m")
    case True
    then show ?thesis using least [OF j(1) _ j(3)] j(2) by simp
  next
    case False
    then have pm: "geom_within g (outs ! p) (outs ! m)" using p(3) by simp
    show ?thesis
    proof (cases "j = m")
      case True
      then show ?thesis using pm by simp
    next
      case False
      then have "geom_within g (outs ! m) (outs ! j)" using least [OF j(1) _ j(3)] by simp
      then show ?thesis
        using pm p(1) m(1) j(1) assms(1) unfolding within_transitive_def by blast
    qed
  qed
  then show ?thesis using p(1,2) by (simp add: smallest_candidate_def)
qed

lemma find_parent_cases:
  "case find_parent g inner outs of
     None \<Rightarrow> (\<forall>j<length outs. \<not> geom_within g inner (outs ! j))
   | Some p \<Rightarrow> p < length outs \<and> geom_within g inner (outs ! p) \<and>
       (within_transitive g outs \<and> (\<exists>m. smallest_candidate g inner outs m) \<longrightarrow>
          smallest_candidate g inner outs p)"
proof (cases "find_parent g inner outs")
  case None
  then show ?thesis
    using find_parent_prefix [of "length outs" outs g inner] by (simp add: find_parent_def)
next
  case (Some p)
  then have "p < length outs \<and> geom_within g inner (outs ! p)"
    using find_parent_prefix [of "length outs" outs g inner] by (simp add: find_parent_def)
  then show ?thesis
    using Some find_parent_smallest [of g outs inner _ p] by auto
qed

subsection \<open>Where the elements of the result come from\<close>

lemma assign_inner_body_length [simp]:
  "length (assign_inner_body g outs inns iwvv k acc) = length acc"
  by (simp add: assign_inner_body_def split: option.splits)

lemma assign_inners_fold_length [simp]:
  "length (fold (assign_inner_body g outs inns iwvv) ks acc) = length acc"
  by (induction ks arbitrary: acc) simp_all

lemma assign_inner_body_elements:
  assumes "\<forall>x\<in>set acc. set x \<subseteq> S" and "k < length inns"
    and "PSEUDO_WAY_INNER_MARK \<in> S"
    and "\<forall>k\<in>parented g outs inns. set (iwvv ! k) \<subseteq> S"
  shows "\<forall>x\<in>set (assign_inner_body g outs inns iwvv k acc). set x \<subseteq> S"
proof (cases "find_parent g (inns ! k) outs")
  case None
  then show ?thesis using assms(1) by (simp add: assign_inner_body_def)
next
  case (Some p)
  then have "k \<in> parented g outs inns" using assms(2) by (simp add: parented_def)
  then have kk: "set (iwvv ! k) \<subseteq> S" using assms(4) by blast
  show ?thesis
  proof (cases "p < length acc")
    case False
    then have "acc[p := (acc ! p @ [PSEUDO_WAY_INNER_MARK]) @ iwvv ! k] = acc"
      by (simp add: list_update_beyond)
    then show ?thesis using assms(1) Some unfolding assign_inner_body_def by simp
  next
    case True
    then have "set (acc ! p) \<subseteq> S" using assms(1) by simp
    then have "set ((acc ! p @ [PSEUDO_WAY_INNER_MARK]) @ iwvv ! k) \<subseteq> S"
      using kk assms(3) by simp
    moreover have "set (acc[p := (acc ! p @ [PSEUDO_WAY_INNER_MARK]) @ iwvv ! k])
        \<subseteq> insert ((acc ! p @ [PSEUDO_WAY_INNER_MARK]) @ iwvv ! k) (set acc)"
      by (rule set_update_subset_insert)
    ultimately show ?thesis
      using assms(1) Some unfolding assign_inner_body_def by (simp only: option.case) blast
  qed
qed

lemma assign_inners_fold_elements:
  assumes "\<forall>x\<in>set acc. set x \<subseteq> S" and "\<forall>k\<in>set ks. k < length inns"
    and "PSEUDO_WAY_INNER_MARK \<in> S"
    and "\<forall>k\<in>parented g outs inns. set (iwvv ! k) \<subseteq> S"
  shows "\<forall>x\<in>set (fold (assign_inner_body g outs inns iwvv) ks acc). set x \<subseteq> S"
  using assms(1,2)
proof (induction ks arbitrary: acc)
  case Nil
  then show ?case by simp
next
  case (Cons k ks)
  have kl: "k < length inns" using Cons.prems(2) by simp
  have "\<forall>x\<in>set (assign_inner_body g outs inns iwvv k acc). set x \<subseteq> S"
    using assign_inner_body_elements [OF Cons.prems(1) kl assms(3,4)] .
  then show ?case using Cons.IH Cons.prems(2) by simp
qed

lemma flatten_fold_elements:
  assumes "set res \<subseteq> S" and "\<forall>j\<in>set js. j < length owvv \<and> j < length ifo"
    and "PSEUDO_WAY_OUTER_MARK \<in> S"
    and "\<forall>x\<in>set owvv. set x \<subseteq> S" and "\<forall>x\<in>set ifo. set x \<subseteq> S"
  shows "set (fold (flatten_body owvv ifo) js res) \<subseteq> S"
  using assms(1,2)
proof (induction js arbitrary: res)
  case Nil
  then show ?case by simp
next
  case (Cons j js)
  have "set (owvv ! j) \<subseteq> S" "set (ifo ! j) \<subseteq> S"
    using Cons.prems(2) assms(4,5) by simp_all
  then have "set (flatten_body owvv ifo j res) \<subseteq> S"
    using Cons.prems(1) assms(3) by (simp add: flatten_body_def)
  then show ?case using Cons.IH Cons.prems(2) by simp
qed

lemma result_elements:
  "set (flatten_result owvv (assign_inners g owvv outs inns iwvv))
     \<subseteq> {PSEUDO_WAY_OUTER_MARK, PSEUDO_WAY_INNER_MARK} \<union> (\<Union>x\<in>set owvv. set x)
         \<union> (\<Union>k\<in>parented g outs inns. set (iwvv ! k))"
proof -
  let ?S = "{PSEUDO_WAY_OUTER_MARK, PSEUDO_WAY_INNER_MARK} \<union> (\<Union>x\<in>set owvv. set x)
         \<union> (\<Union>k\<in>parented g outs inns. set (iwvv ! k))"
  have a: "\<forall>x\<in>set (assign_inners g owvv outs inns iwvv). set x \<subseteq> ?S"
    unfolding assign_inners_def
    by (rule assign_inners_fold_elements) auto
  have l: "length (assign_inners g owvv outs inns iwvv) = length owvv"
    by (simp add: assign_inners_def)
  show ?thesis
    unfolding flatten_result_def
    by (rule flatten_fold_elements) (use a l in auto)
qed

lemma box_within_trans: "box_within a b \<Longrightarrow> box_within b c \<Longrightarrow> box_within a c"
  unfolding box_within_def by (meson order_trans)

lemma box_geom_transitive: "within_transitive box_geom outs"
  unfolding within_transitive_def using box_within_trans by (auto simp: box_geom_def)

text \<open>
  Claim C3 (as amended). In \<open>correctMultiPolygonRelation\<close>, an inner ring gets a
  parent exactly when some outer ring contains it, and the parent is an outer ring that
  contains it (\<open>geom::within\<close> holds). When \<open>geom::within\<close> is transitive on the outer
  rings and some outer ring is a smallest enclosing candidate (it contains the inner ring
  and is contained in every other outer ring that also contains the inner ring), the
  parent is a smallest enclosing candidate. An inner ring contained in no outer ring
  contributes nothing: every element of the returned sequence is a mark, a way of an
  outer ring, or a way of an inner ring that has a parent.
\<close>

theorem inner_ring_parent:
  assumes "correctMultiPolygonRelation g sqDist st outerWayVec innerWayVec = Inr result"
  shows "\<exists>owvv outs iwvv inns.
     construct_rings g sqDist st outerWayVec = Inr (owvv, outs) \<and>
     construct_rings g sqDist st innerWayVec = Inr (iwvv, inns) \<and>
     result = flatten_result owvv (assign_inners g owvv outs inns iwvv) \<and>
     (\<forall>k<length inns.
        case find_parent g (inns ! k) outs of
          None \<Rightarrow> (\<forall>j<length outs. \<not> geom_within g (inns ! k) (outs ! j))
        | Some p \<Rightarrow> p < length outs \<and> geom_within g (inns ! k) (outs ! p) \<and>
            (within_transitive g outs \<and> (\<exists>m. smallest_candidate g (inns ! k) outs m) \<longrightarrow>
               smallest_candidate g (inns ! k) outs p)) \<and>
     set result \<subseteq> {PSEUDO_WAY_OUTER_MARK, PSEUDO_WAY_INNER_MARK} \<union> (\<Union>x\<in>set owvv. set x)
         \<union> (\<Union>k\<in>parented g outs inns. set (iwvv ! k))"
proof -
  obtain owvv outs where o: "construct_rings g sqDist st outerWayVec = Inr (owvv, outs)"
    using assms by (cases "construct_rings g sqDist st outerWayVec")
      (auto simp: correctMultiPolygonRelation_def)
  obtain iwvv inns where i: "construct_rings g sqDist st innerWayVec = Inr (iwvv, inns)"
    using assms o by (cases "construct_rings g sqDist st innerWayVec")
      (auto simp: correctMultiPolygonRelation_def)
  have r: "result = flatten_result owvv (assign_inners g owvv outs inns iwvv)"
    using assms o i by (auto simp: correctMultiPolygonRelation_def Let_def split: sum.splits)
  have p: "\<forall>k<length inns.
        case find_parent g (inns ! k) outs of
          None \<Rightarrow> (\<forall>j<length outs. \<not> geom_within g (inns ! k) (outs ! j))
        | Some p \<Rightarrow> p < length outs \<and> geom_within g (inns ! k) (outs ! p) \<and>
            (within_transitive g outs \<and> (\<exists>m. smallest_candidate g (inns ! k) outs m) \<longrightarrow>
               smallest_candidate g (inns ! k) outs p)"
    using find_parent_cases by blast
  have e: "set result \<subseteq> {PSEUDO_WAY_OUTER_MARK, PSEUDO_WAY_INNER_MARK} \<union> (\<Union>x\<in>set owvv. set x)
         \<union> (\<Union>k\<in>parented g outs inns. set (iwvv ! k))"
    unfolding r by (rule result_elements)
  show ?thesis using o i r p e by blast
qed

text \<open>
  The witness: the outer squares A, B and X and the inner bag with the small square and
  the far square C. A and B overlap and neither is within the other; X is within both and
  contains the small square, so it is the smallest enclosing candidate and the parent.
  C is in no outer ring and its way 11 is not in the result.
\<close>

theorem inner_ring_parent_witness:
  "correctMultiPolygonRelation box_geom sqDist_spec example_store [10, 12, 13] [20, 11]
     = Inr [10, PSEUDO_WAY_OUTER_MARK, 12, PSEUDO_WAY_OUTER_MARK, 13, PSEUDO_WAY_INNER_MARK, 20] \<and>
   find_parent box_geom [(5, 5), (5, 7), (7, 7), (7, 5), (5, 5)]
     [[(0, 0), (0, 8), (8, 8), (8, 0), (0, 0)], [(4, 4), (4, 12), (12, 12), (12, 4), (4, 4)],
      [(4, 4), (4, 8), (8, 8), (8, 4), (4, 4)]] = Some 2 \<and>
   smallest_candidate box_geom [(5, 5), (5, 7), (7, 7), (7, 5), (5, 5)]
     [[(0, 0), (0, 8), (8, 8), (8, 0), (0, 0)], [(4, 4), (4, 12), (12, 12), (12, 4), (4, 4)],
      [(4, 4), (4, 8), (8, 8), (8, 4), (4, 4)]] 2 \<and>
   geom_within box_geom [(4, 4), (4, 8), (8, 8), (8, 4), (4, 4)]
     [(0, 0), (0, 8), (8, 8), (8, 0), (0, 0)] \<and>
   geom_within box_geom [(4, 4), (4, 8), (8, 8), (8, 4), (4, 4)]
     [(4, 4), (4, 12), (12, 12), (12, 4), (4, 4)] \<and>
   \<not> geom_within box_geom [(0, 0), (0, 8), (8, 8), (8, 0), (0, 0)]
     [(4, 4), (4, 12), (12, 12), (12, 4), (4, 4)] \<and>
   \<not> geom_within box_geom [(4, 4), (4, 12), (12, 12), (12, 4), (4, 4)]
     [(0, 0), (0, 8), (8, 8), (8, 0), (0, 0)] \<and>
   find_parent box_geom [(20, 20), (20, 24), (24, 24), (24, 20), (20, 20)]
     [[(0, 0), (0, 8), (8, 8), (8, 0), (0, 0)], [(4, 4), (4, 12), (12, 12), (12, 4), (4, 4)],
      [(4, 4), (4, 8), (8, 8), (8, 4), (4, 4)]] = None \<and>
   11 \<notin> set [10, PSEUDO_WAY_OUTER_MARK, 12, PSEUDO_WAY_OUTER_MARK, 13, PSEUDO_WAY_INNER_MARK, 20]"
proof -
  let ?A = "[(0, 0), (0, 8), (8, 8), (8, 0), (0 :: real, 0 :: real)]"
  let ?B = "[(4, 4), (4, 12), (12, 12), (12, 4), (4 :: real, 4 :: real)]"
  let ?X = "[(4, 4), (4, 8), (8, 8), (8, 4), (4 :: real, 4 :: real)]"
  let ?I = "[(5, 5), (5, 7), (7, 7), (7, 5), (5 :: real, 5 :: real)]"
  let ?C = "[(20, 20), (20, 24), (24, 24), (24, 20), (20 :: real, 20 :: real)]"
  have c: "correctMultiPolygonRelation box_geom sqDist_spec example_store [10, 12, 13] [20, 11]
     = Inr [10, PSEUDO_WAY_OUTER_MARK, 12, PSEUDO_WAY_OUTER_MARK, 13, PSEUDO_WAY_INNER_MARK, 20]"
    by code_simp
  have o: "construct_rings box_geom sqDist_spec example_store [10, 12, 13]
             = Inr ([[10], [12], [13]], [?A, ?B, ?X])"
    by code_simp
  have i: "construct_rings box_geom sqDist_spec example_store [20, 11]
             = Inr ([[20], [11]], [?I, ?C])"
    by code_simp
  have fp: "find_parent box_geom ?I [?A, ?B, ?X] = Some 2"
    "find_parent box_geom ?C [?A, ?B, ?X] = None"
    by code_simp+
  have w: "geom_within box_geom ?I ?A" "geom_within box_geom ?I ?B" "geom_within box_geom ?I ?X"
    "geom_within box_geom ?X ?A" "geom_within box_geom ?X ?B"
    "\<not> geom_within box_geom ?A ?B" "\<not> geom_within box_geom ?B ?A"
    by code_simp+
  have sm: "\<exists>m. smallest_candidate box_geom ?I [?A, ?B, ?X] m"
  proof
    show "smallest_candidate box_geom ?I [?A, ?B, ?X] 2"
      using w(3,4,5) by (auto simp: smallest_candidate_def less_Suc_eq eval_nat_numeral)
  qed
  from inner_ring_parent [OF c] o i
  have "\<forall>k<length [?I, ?C].
        case find_parent box_geom ([?I, ?C] ! k) [?A, ?B, ?X] of
          None \<Rightarrow> (\<forall>j<length [?A, ?B, ?X]. \<not> geom_within box_geom ([?I, ?C] ! k) ([?A, ?B, ?X] ! j))
        | Some p \<Rightarrow> p < length [?A, ?B, ?X] \<and> geom_within box_geom ([?I, ?C] ! k) ([?A, ?B, ?X] ! p) \<and>
            (within_transitive box_geom [?A, ?B, ?X] \<and>
             (\<exists>m. smallest_candidate box_geom ([?I, ?C] ! k) [?A, ?B, ?X] m) \<longrightarrow>
               smallest_candidate box_geom ([?I, ?C] ! k) [?A, ?B, ?X] p)"
    by auto
  then have s2: "smallest_candidate box_geom ?I [?A, ?B, ?X] 2"
    using fp(1) sm box_geom_transitive [of "[?A, ?B, ?X]"]
    by (elim allE [of _ 0]) simp
  have n: "11 \<notin> set [10, PSEUDO_WAY_OUTER_MARK, 12, PSEUDO_WAY_OUTER_MARK, 13,
                       PSEUDO_WAY_INNER_MARK, 20 :: WayID]"
    by (simp add: PSEUDO_WAY_OUTER_MARK_def PSEUDO_WAY_INNER_MARK_def)
  show ?thesis
    using c fp s2 w(4,5,6,7) n by simp
qed

theorem inner_ring_parent_counterexample:
  "correctMultiPolygonRelation box_geom sqDist_spec example_store [10, 12] [20]
     = Inr [10, PSEUDO_WAY_INNER_MARK, 20, PSEUDO_WAY_OUTER_MARK, 12] \<and>
   construct_rings box_geom sqDist_spec example_store [10, 12]
     = Inr ([[10], [12]], [[(0, 0), (0, 8), (8, 8), (8, 0), (0, 0)],
                           [(4, 4), (4, 12), (12, 12), (12, 4), (4, 4)]]) \<and>
   construct_rings box_geom sqDist_spec example_store [20]
     = Inr ([[20]], [[(5, 5), (5, 7), (7, 7), (7, 5), (5, 5)]]) \<and>
   find_parent box_geom [(5, 5), (5, 7), (7, 7), (7, 5), (5, 5)]
     [[(0, 0), (0, 8), (8, 8), (8, 0), (0, 0)], [(4, 4), (4, 12), (12, 12), (12, 4), (4, 4)]]
     = Some 0 \<and>
   geom_within box_geom [(5, 5), (5, 7), (7, 7), (7, 5), (5, 5)]
     [(4, 4), (4, 12), (12, 12), (12, 4), (4, 4)] \<and>
   \<not> geom_within box_geom [(0, 0), (0, 8), (8, 8), (8, 0), (0, 0)]
     [(4, 4), (4, 12), (12, 12), (12, 4), (4, 4)]"
  by code_simp

end
